theory Spec2Isabelle
  imports Main "HOL-Library.AList"
begin

section \<open>Go strings\<close>

text \<open>
  A Go string is a sequence of bytes; \<^typ>\<open>string\<close> (a list of 8-bit characters) models
  it byte for byte. The functions of package \<^verbatim>\<open>strings\<close> that \<^verbatim>\<open>main.go\<close> calls are
  written out below as the standard library defines them.
\<close>

text \<open>\<^verbatim>\<open>strings.HasPrefix\<close>: \<^verbatim>\<open>len(s) >= len(prefix) && s[:len(prefix)] == prefix\<close>.\<close>

definition strings_HasPrefix :: "string \<Rightarrow> string \<Rightarrow> bool" where
  "strings_HasPrefix s p = (length p \<le> length s \<and> take (length p) s = p)"

text \<open>The comparison of lengths is implied by the comparison of the slices.\<close>

lemma strings_HasPrefix_take [code]: "strings_HasPrefix s p = (take (length p) s = p)"
proof -
  have "length p \<le> length s" if "take (length p) s = p"
  proof -
    from that have "length (take (length p) s) = length p" by simp
    then show ?thesis by simp
  qed
  then show ?thesis
    by (auto simp: strings_HasPrefix_def)
qed

text \<open>\<^verbatim>\<open>strings.HasSuffix\<close>: \<^verbatim>\<open>len(s) >= len(suffix) && s[len(s)-len(suffix):] == suffix\<close>.\<close>

definition strings_HasSuffix :: "string \<Rightarrow> string \<Rightarrow> bool" where
  "strings_HasSuffix s p = (length p \<le> length s \<and> drop (length s - length p) s = p)"

text \<open>\<^verbatim>\<open>strings.TrimSuffix\<close>: the string without the suffix when it ends with it.\<close>

definition strings_TrimSuffix :: "string \<Rightarrow> string \<Rightarrow> string" where
  "strings_TrimSuffix s p =
     (if strings_HasSuffix s p then take (length s - length p) s else s)"

text \<open>\<^verbatim>\<open>strings.Index\<close>: the byte offset of the first occurrence of \<open>sep\<close>, if any.\<close>

fun strings_Index :: "string \<Rightarrow> string \<Rightarrow> nat option" where
  "strings_Index [] sep = (if sep = [] then Some 0 else None)"
| "strings_Index (c # cs) sep =
     (if strings_HasPrefix (c # cs) sep then Some 0
      else map_option Suc (strings_Index cs sep))"

definition strings_Contains :: "string \<Rightarrow> string \<Rightarrow> bool" where
  "strings_Contains s sub = (strings_Index s sub \<noteq> None)"

text \<open>
  \<^verbatim>\<open>strings.SplitN(s, sep, 2)\<close> for a non-empty separator: the string itself when the
  separator does not occur, otherwise the text before its first occurrence and the
  text after it. (Both calls in \<^verbatim>\<open>main.go\<close> pass \<open>n = 2\<close> and a one-byte separator.)
\<close>

definition strings_SplitN2 :: "string \<Rightarrow> string \<Rightarrow> string list" where
  "strings_SplitN2 s sep =
     (case strings_Index s sep of
        None \<Rightarrow> [s]
      | Some i \<Rightarrow> [take i s, drop (i + length sep) s])"

text \<open>
  \<^verbatim>\<open>strings.ReplaceAll(s, old, new)\<close> for a non-empty \<open>old\<close>: the non-overlapping
  occurrences are replaced from left to right.
\<close>

function strings_ReplaceAll :: "string \<Rightarrow> string \<Rightarrow> string \<Rightarrow> string" where
  "strings_ReplaceAll s old new =
     (if s = [] \<or> old = [] then s
      else if strings_HasPrefix s old
        then new @ strings_ReplaceAll (drop (length old) s) old new
        else hd s # strings_ReplaceAll (tl s) old new)"
  by pat_completeness auto
termination
  by (relation "measure (\<lambda>(s, old, new). length s)") (auto simp: strings_HasPrefix_def)

declare strings_ReplaceAll.simps [simp del]

subsection \<open>White space\<close>

text \<open>
  \<^verbatim>\<open>strings.TrimSpace\<close> removes the leading and trailing runes for which
  \<^verbatim>\<open>unicode.IsSpace\<close> holds. \<open>spaceRunes\<close> lists their UTF-8 encodings: the six ASCII
  characters, U+0085, U+00A0, U+1680, U+2000 to U+200A, U+2028, U+2029, U+202F, U+205F
  and U+3000. UTF-8 is prefix free, and a rune's first byte is never a continuation
  byte, so a string starts (ends) with a white-space rune exactly when one of these
  byte sequences is a prefix (suffix) of it.
\<close>

definition spaceRunes :: "string list" where
  "spaceRunes =
     [[CHR 0x09], [CHR 0x0A], [CHR 0x0B], [CHR 0x0C], [CHR 0x0D], [CHR 0x20],
      [CHR 0xC2, CHR 0x85], [CHR 0xC2, CHR 0xA0],
      [CHR 0xE1, CHR 0x9A, CHR 0x80],
      [CHR 0xE2, CHR 0x80, CHR 0x80], [CHR 0xE2, CHR 0x80, CHR 0x81],
      [CHR 0xE2, CHR 0x80, CHR 0x82], [CHR 0xE2, CHR 0x80, CHR 0x83],
      [CHR 0xE2, CHR 0x80, CHR 0x84], [CHR 0xE2, CHR 0x80, CHR 0x85],
      [CHR 0xE2, CHR 0x80, CHR 0x86], [CHR 0xE2, CHR 0x80, CHR 0x87],
      [CHR 0xE2, CHR 0x80, CHR 0x88], [CHR 0xE2, CHR 0x80, CHR 0x89],
      [CHR 0xE2, CHR 0x80, CHR 0x8A],
      [CHR 0xE2, CHR 0x80, CHR 0xA8], [CHR 0xE2, CHR 0x80, CHR 0xA9],
      [CHR 0xE2, CHR 0x80, CHR 0xAF], [CHR 0xE2, CHR 0x81, CHR 0x9F],
      [CHR 0xE3, CHR 0x80, CHR 0x80]]"

definition leadingSpace :: "string \<Rightarrow> string option" where
  "leadingSpace s = List.find (strings_HasPrefix s) spaceRunes"

definition trailingSpace :: "string \<Rightarrow> string option" where
  "trailingSpace s = List.find (strings_HasSuffix s) spaceRunes"

text \<open>A suffix is a prefix of the reversed string.\<close>

lemma strings_HasSuffix_rev: "strings_HasSuffix s p = (take (length p) (rev s) = rev p)"
proof (cases "length p \<le> length s")
  case True
  have "(drop (length s - length p) s = p) = (rev (drop (length s - length p) s) = rev p)"
    by simp
  also have "rev (drop (length s - length p) s) = take (length p) (rev s)"
    using True by (simp add: rev_drop)
  finally show ?thesis
    using True by (simp add: strings_HasSuffix_def)
next
  case False
  then have "length (take (length p) (rev s)) \<noteq> length (rev p)"
    by simp
  then have "take (length p) (rev s) \<noteq> rev p"
    by metis
  with False show ?thesis
    by (simp add: strings_HasSuffix_def)
qed

lemma trailingSpace_rev [code]:
  "trailingSpace s = List.find (\<lambda>w. take (length w) (rev s) = rev w) spaceRunes"
  by (simp add: trailingSpace_def strings_HasSuffix_rev [abs_def])

lemma spaceRunes_nonempty: "w \<in> set spaceRunes \<Longrightarrow> w \<noteq> []"
  by (auto simp: spaceRunes_def)

lemma find_Some_mem: "List.find P xs = Some x \<Longrightarrow> x \<in> set xs \<and> P x"
  by (induction xs) (auto split: if_splits)

lemma leadingSpace_Some:
  "leadingSpace s = Some w \<Longrightarrow> w \<noteq> [] \<and> length w \<le> length s \<and> take (length w) s = w"
  unfolding leadingSpace_def
  by (auto dest!: find_Some_mem simp: strings_HasPrefix_def dest: spaceRunes_nonempty)

lemma trailingSpace_Some:
  "trailingSpace s = Some w \<Longrightarrow>
     w \<noteq> [] \<and> length w \<le> length s \<and> drop (length s - length w) s = w"
  unfolding trailingSpace_def
  by (auto dest!: find_Some_mem simp: strings_HasSuffix_def dest: spaceRunes_nonempty)

function trimLeft :: "string \<Rightarrow> string" where
  "trimLeft s =
     (case leadingSpace s of
        None \<Rightarrow> s
      | Some w \<Rightarrow> trimLeft (drop (length w) s))"
  by pat_completeness auto
termination
proof (relation "measure length")
  fix s w
  assume "leadingSpace s = Some w"
  from leadingSpace_Some [OF this]
  have "0 < length w" "length w \<le> length s" by auto
  then have "length s - length w < length s" by arith
  then show "(drop (length w) s, s) \<in> measure length" by simp
qed simp

function trimRight :: "string \<Rightarrow> string" where
  "trimRight s =
     (case trailingSpace s of
        None \<Rightarrow> s
      | Some w \<Rightarrow> trimRight (take (length s - length w) s))"
  by pat_completeness auto
termination
proof (relation "measure length")
  fix s w
  assume "trailingSpace s = Some w"
  from trailingSpace_Some [OF this]
  have "0 < length w" "length w \<le> length s" by auto
  then have "length s - length w < length s" by arith
  then show "(take (length s - length w) s, s) \<in> measure length" by simp
qed simp

declare trimLeft.simps [simp del] trimRight.simps [simp del]

definition strings_TrimSpace :: "string \<Rightarrow> string" where
  "strings_TrimSpace s = trimRight (trimLeft s)"

text \<open>\<^verbatim>\<open>strings.Join\<close>: the elements with the separator between them.\<close>

fun strings_Join :: "string list \<Rightarrow> string \<Rightarrow> string" where
  "strings_Join [] sep = []"
| "strings_Join [x] sep = x"
| "strings_Join (x # y # ys) sep = x @ sep @ strings_Join (y # ys) sep"

section \<open>File paths (package \<^verbatim>\<open>path/filepath\<close>, Unix)\<close>

definition Separator :: char where
  "Separator = CHR ''/''"

text \<open>The elements of a path: the text between separators, empty elements included.\<close>

fun pathElems :: "string \<Rightarrow> string list" where
  "pathElems [] = [[]]"
| "pathElems (c # cs) =
     (if c = Separator then [] # pathElems cs
      else (case pathElems cs of
              [] \<Rightarrow> [[c]]
            | e # es \<Rightarrow> (c # e) # es))"

text \<open>
  \<^verbatim>\<open>filepath.Clean\<close> reads the path element by element and keeps a buffer of the
  elements written so far (\<open>out\<close>, the last one first). Empty elements and \<^verbatim>\<open>.\<close> are
  dropped; \<^verbatim>\<open>..\<close> removes the last element written when there is one to backtrack
  over (Go's \<^verbatim>\<open>out.w > dotdot\<close>), is dropped at the root of a rooted path, and is
  written otherwise.
\<close>

fun cleanElems :: "bool \<Rightarrow> string list \<Rightarrow> string list \<Rightarrow> string list" where
  "cleanElems rooted out [] = rev out"
| "cleanElems rooted out (e # es) =
     (if e = [] \<or> e = ''.'' then cleanElems rooted out es
      else if e = ''..'' then
        (case out of
           [] \<Rightarrow> if rooted then cleanElems rooted [] es
                 else cleanElems rooted [''..''] es
         | x # xs \<Rightarrow> if x = ''..'' then cleanElems rooted (''..'' # out) es
                     else cleanElems rooted xs es)
      else cleanElems rooted (e # out) es)"

definition filepath_Clean :: "string \<Rightarrow> string" where
  "filepath_Clean path =
     (if path = [] then ''.''
      else
        let rooted = (hd path = Separator);
            body = strings_Join (cleanElems rooted [] (pathElems path)) [Separator]
        in if rooted then Separator # body
           else if body = [] then ''.''
           else body)"

text \<open>
  \<^verbatim>\<open>filepath.Join\<close>: empty leading elements are ignored, the rest is joined with the
  separator and cleaned; the result is empty when every element is.
\<close>

definition filepath_Join :: "string list \<Rightarrow> string" where
  "filepath_Join elem =
     (case dropWhile (\<lambda>e. e = []) elem of
        [] \<Rightarrow> []
      | es \<Rightarrow> filepath_Clean (strings_Join es [Separator]))"

text \<open>\<^verbatim>\<open>filepath.Base\<close>: the last element of the path, trailing separators removed.\<close>

definition filepath_Base :: "string \<Rightarrow> string" where
  "filepath_Base path =
     (if path = [] then ''.''
      else
        let stripped = rev (dropWhile (\<lambda>c. c = Separator) (rev path));
            last_elem = rev (takeWhile (\<lambda>c. c \<noteq> Separator) (rev stripped))
        in if last_elem = [] then [Separator] else last_elem)"

text \<open>
  \<^verbatim>\<open>filepath.Ext\<close>: the suffix of the last element that starts at its final dot, empty
  when that element has no dot.
\<close>

definition filepath_Ext :: "string \<Rightarrow> string" where
  "filepath_Ext path =
     (let last_elem = rev (takeWhile (\<lambda>c. c \<noteq> Separator) (rev path))
      in if CHR ''.'' \<in> set last_elem
         then CHR ''.'' # rev (takeWhile (\<lambda>c. c \<noteq> CHR ''.'') (rev last_elem))
         else [])"

text \<open>\<^verbatim>\<open>filepath.Dir\<close>: all but the last element of the path, cleaned.\<close>

definition filepath_Dir :: "string \<Rightarrow> string" where
  "filepath_Dir path = filepath_Clean (rev (dropWhile (\<lambda>c. c \<noteq> Separator) (rev path)))"

section \<open>Times (package \<^verbatim>\<open>time\<close>)\<close>

text \<open>
  A \<^verbatim>\<open>time.Time\<close> is modelled by its calendar fields, read by the accessors
  \<^verbatim>\<open>Year()\<close>, \<^verbatim>\<open>Month()\<close>, \<^verbatim>\<open>Day()\<close>, and its location. \<^verbatim>\<open>time.Date\<close> builds the
  value from the fields; \<^verbatim>\<open>parseAppleDate\<close> passes it the fields of a parsed time
  and constants, which are in range, so that it has nothing to normalise.
\<close>

datatype location = UTC | Local

record time =
  Year :: int
  Month :: nat
  Day :: nat
  Hour :: nat
  Minute :: nat
  Second :: nat
  Nanosecond :: nat
  Location :: location

definition time_Date ::
  "int \<Rightarrow> nat \<Rightarrow> nat \<Rightarrow> nat \<Rightarrow> nat \<Rightarrow> nat \<Rightarrow> nat \<Rightarrow> location \<Rightarrow> time" where
  "time_Date y m d h mi s ns loc =
     \<lparr>Year = y, Month = m, Day = d, Hour = h, Minute = mi, Second = s,
      Nanosecond = ns, Location = loc\<rparr>"

text \<open>The zero value \<^verbatim>\<open>time.Time{}\<close>: January 1 of year 1, 00:00:00 UTC.\<close>

definition zeroTime :: time where
  "zeroTime = time_Date 1 1 1 0 0 0 0 UTC"

subsection \<open>\<^verbatim>\<open>time.Parse\<close> for the two layouts of \<^verbatim>\<open>parseAppleDate\<close>\<close>

text \<open>
  \<^verbatim>\<open>parseAppleDate\<close> below takes \<^verbatim>\<open>time.Parse\<close> as a parameter. \<open>time_Parse\<close> is the
  library's behaviour on the layouts \<^verbatim>\<open>"January 2, 2006"\<close> and \<^verbatim>\<open>"Jan 2, 2006"\<close>: a
  month name (matched without regard to ASCII case), spaces, a day of one or two
  digits, a comma, spaces, a year of four digits and nothing else; the day has to
  exist in that month.
\<close>

datatype parse_error = ParseError string string

definition longMonthNames :: "string list" where
  "longMonthNames =
     [''January'', ''February'', ''March'', ''April'', ''May'', ''June'', ''July'',
      ''August'', ''September'', ''October'', ''November'', ''December'']"

definition shortMonthNames :: "string list" where
  "shortMonthNames =
     [''Jan'', ''Feb'', ''Mar'', ''Apr'', ''May'', ''Jun'', ''Jul'', ''Aug'', ''Sep'',
      ''Oct'', ''Nov'', ''Dec'']"

definition isDigit :: "char \<Rightarrow> bool" where
  "isDigit c = (48 \<le> (of_char c :: nat) \<and> (of_char c :: nat) \<le> 57)"

definition digitVal :: "char \<Rightarrow> nat" where
  "digitVal c = of_char c - 48"

text \<open>\<^verbatim>\<open>c | ('a' - 'A')\<close>: the byte with bit 5 set.\<close>

definition lowerBit :: "char \<Rightarrow> nat" where
  "lowerBit c = (let n = of_char c in if (n div 32) mod 2 = 0 then n + 32 else n)"

definition matchChar :: "char \<Rightarrow> char \<Rightarrow> bool" where
  "matchChar c1 c2 =
     (c1 = c2 \<or> (lowerBit c1 = lowerBit c2 \<and> 97 \<le> lowerBit c1 \<and> lowerBit c1 \<le> 122))"

fun lookup :: "string list \<Rightarrow> nat \<Rightarrow> string \<Rightarrow> (nat \<times> string) option" where
  "lookup [] i val = None"
| "lookup (v # tab) i val =
     (if length v \<le> length val \<and> list_all2 matchChar (take (length v) val) v
      then Some (i, drop (length v) val)
      else lookup tab (Suc i) val)"

definition cutspace :: "string \<Rightarrow> string" where
  "cutspace s = dropWhile (\<lambda>c. c = CHR '' '') s"

function skip :: "string \<Rightarrow> string \<Rightarrow> string option" where
  "skip val [] = Some val"
| "skip val (p # ps) =
     (if p = CHR '' '' then
        (if val \<noteq> [] \<and> hd val \<noteq> CHR '' '' then None
         else skip (cutspace val) (cutspace ps))
      else if val = [] \<or> hd val \<noteq> p then None
      else skip (tl val) ps)"
  by pat_completeness auto
termination
  by (relation "measure (\<lambda>(val, prefix). length prefix)")
    (auto simp: cutspace_def less_Suc_eq_le length_dropWhile_le)

definition getnum :: "string \<Rightarrow> (nat \<times> string) option" where
  "getnum s =
     (case s of
        [] \<Rightarrow> None
      | c1 # r1 \<Rightarrow>
          if \<not> isDigit c1 then None
          else (case r1 of
                  [] \<Rightarrow> Some (digitVal c1, r1)
                | c2 # r2 \<Rightarrow>
                    if isDigit c2 then Some (digitVal c1 * 10 + digitVal c2, r2)
                    else Some (digitVal c1, r1)))"

definition getyear :: "string \<Rightarrow> (int \<times> string) option" where
  "getyear s =
     (if length s < 4 \<or> \<not> list_all isDigit (take 4 s) then None
      else Some (int (foldl (\<lambda>n c. n * 10 + digitVal c) 0 (take 4 s)), drop 4 s))"

definition isLeap :: "int \<Rightarrow> bool" where
  "isLeap year = (year mod 4 = 0 \<and> (year mod 100 \<noteq> 0 \<or> year mod 400 = 0))"

definition daysIn :: "nat \<Rightarrow> int \<Rightarrow> nat" where
  "daysIn m year =
     (if m = 2 then (if isLeap year then 29 else 28)
      else if m = 4 \<or> m = 6 \<or> m = 9 \<or> m = 11 then 30
      else 31)"

definition parseMonthDayYear :: "string list \<Rightarrow> string \<Rightarrow> string \<Rightarrow> parse_error + time" where
  "parseMonthDayYear names layout val =
     (case lookup names 0 val of
        None \<Rightarrow> Inl (ParseError layout val)
      | Some (i, v1) \<Rightarrow>
     (case skip v1 '' '' of
        None \<Rightarrow> Inl (ParseError layout val)
      | Some v2 \<Rightarrow>
     (case getnum v2 of
        None \<Rightarrow> Inl (ParseError layout val)
      | Some (day, v3) \<Rightarrow>
     (case skip v3 '', '' of
        None \<Rightarrow> Inl (ParseError layout val)
      | Some v4 \<Rightarrow>
     (case getyear v4 of
        None \<Rightarrow> Inl (ParseError layout val)
      | Some (year, v5) \<Rightarrow>
          if v5 \<noteq> [] then Inl (ParseError layout val)
          else if day < 1 \<or> daysIn (Suc i) year < day then Inl (ParseError layout val)
          else Inr (time_Date year (Suc i) day 0 0 0 0 UTC))))))"

definition time_Parse :: "string \<Rightarrow> string \<Rightarrow> parse_error + time" where
  "time_Parse layout val =
     (if layout = ''January 2, 2006'' then parseMonthDayYear longMonthNames layout val
      else if layout = ''Jan 2, 2006'' then parseMonthDayYear shortMonthNames layout val
      else Inl (ParseError layout val))"

section \<open>The date parser\<close>

text \<open>
  The errors of the program, one constructor for each \<^verbatim>\<open>fmt.Errorf\<close> of \<^verbatim>\<open>main.go\<close>,
  with the values its message is formatted from:
  \<^item> \<open>DateParseError dateStr err\<close>:
    \<^verbatim>\<open>failed to parse date string '%s' with known layouts: %w\<close>;
  \<^item> \<open>OpenError path\<close>: \<^verbatim>\<open>opening HTML file %s: %w\<close>;
  \<^item> \<open>HTMLParseError path\<close>: \<^verbatim>\<open>parsing HTML file %s: %w\<close>;
  \<^item> \<open>MissingDateError path\<close>: \<^verbatim>\<open>no date found in pageHeader for %s\<close>;
  \<^item> \<open>CouldNotParseDate dateStr path err\<close>: \<^verbatim>\<open>could not parse date '%s' for %s: %w\<close>;
  \<^item> \<open>EmptyEntryError path\<close>: \<^verbatim>\<open>empty entry after processing %s\<close>;
  \<^item> \<open>MediaDirError mediaDir\<close>: \<^verbatim>\<open>creating media directory %s: %w\<close>;
  \<^item> \<open>WriteError filePath\<close>: \<^verbatim>\<open>writing markdown file %s: %w\<close>;
  \<^item> \<open>IllegalFilePath fpath\<close>: \<^verbatim>\<open>%s: illegal file path\<close>;
  \<^item> \<open>ZipOpenError\<close>, \<open>MkdirError\<close>, \<open>CreateError\<close>, \<open>ZipReadError\<close>: the errors of
    \<^verbatim>\<open>zip.OpenReader\<close>, \<^verbatim>\<open>os.MkdirAll\<close>, \<^verbatim>\<open>os.OpenFile\<close> and of reading an archive
    member, which \<^verbatim>\<open>unzip\<close> returns as they are.
\<close>

datatype error =
    DateParseError string "parse_error option"
  | OpenError string
  | HTMLParseError string
  | MissingDateError string
  | CouldNotParseDate string string error
  | EmptyEntryError string
  | MediaDirError string
  | WriteError string
  | ZipOpenError string
  | MkdirError string
  | IllegalFilePath string
  | CreateError string
  | ZipReadError string

definition layouts :: "string list" where
  "layouts = [''January 2, 2006'', ''Jan 2, 2006'']"

text \<open>
  The loop over the layouts. \<open>err\<close> is the variable \<^verbatim>\<open>err\<close> of the source: \<^verbatim>\<open>nil\<close>
  before the loop, the error of the last layout tried after it.
\<close>

fun tryLayouts ::
  "(string \<Rightarrow> string \<Rightarrow> parse_error + time) \<Rightarrow> string list \<Rightarrow> string \<Rightarrow>
     parse_error option \<Rightarrow> parse_error option + time"
where
  "tryLayouts parse [] dateStr err = Inl err"
| "tryLayouts parse (layout # ls) dateStr err =
     (case parse layout dateStr of
        Inr t \<Rightarrow> Inr (time_Date (Year t) (Month t) (Day t) 12 0 0 0 UTC)
      | Inl e \<Rightarrow> tryLayouts parse ls dateStr (Some e))"

text \<open>
  \<^verbatim>\<open>parseAppleDate\<close> returns a pair, the time and the error (\<open>None\<close> for \<^verbatim>\<open>nil\<close>), as
  the Go function does.
\<close>

definition parseAppleDate ::
  "(string \<Rightarrow> string \<Rightarrow> parse_error + time) \<Rightarrow> string \<Rightarrow> time \<times> error option" where
  "parseAppleDate parse dateStr0 =
     (let parts = strings_SplitN2 dateStr0 '','';
          dateStr = (if length parts = 2 then strings_TrimSpace (parts ! 1) else dateStr0)
      in (case tryLayouts parse layouts dateStr None of
            Inr t \<Rightarrow> (t, None)
          | Inl err \<Rightarrow> (zeroTime, Some (DateParseError dateStr err))))"

section \<open>The world the program runs in\<close>

text \<open>
  The file system holds regular files (path and content) and directories. A path is
  the string the program passes to the operating system; two different strings are
  two different files (no links, no working directory). The unique-identifier
  generator is the number of calls of \<^verbatim>\<open>uuid.New\<close> so far; the log is the list of
  lines written by \<^verbatim>\<open>log.Printf\<close>.
\<close>

datatype log_line =
    LogImageNotFound string string
  | LogNoHTMLContent string
  | LogConversionError string
  | LogCopyFailed string string
  | LogSaved string
  | LogErrorAccessing string
  | LogProcessingEntry string
  | LogEntrySkipped string error
  | LogErrorSaving string error
  | LogComplete nat
  | LogOutputWritten string

record world =
  files :: "(string \<times> string) list"
  dirs :: "string list"
  uuidCalls :: nat
  logOutput :: "log_line list"

datatype node =
    HeaderOrTitle
  | AssetGrid "string option list"
  | Content "string option"

text \<open>
  A parsed entry document, as the selectors of \<^verbatim>\<open>processEntryHTML\<close> see it:
  \<^item> \<open>pageHeader\<close>: \<^verbatim>\<open>doc.Find("div.pageHeader").First().Text()\<close> (empty when there is none);
  \<^item> \<open>titleSpan\<close>: the text of \<^verbatim>\<open>doc.Find("div.title span.s2").First()\<close>, \<open>None\<close> when
    the selection is empty;
  \<^item> \<open>children\<close>: \<^verbatim>\<open>doc.Find("div.pageContainer").Children()\<close> in document order. A child
    is \<open>HeaderOrTitle\<close> when it matches \<^verbatim>\<open>div.pageHeader, div.title\<close>; otherwise
    \<open>AssetGrid\<close> when it matches \<^verbatim>\<open>div.assetGrid\<close>, with the \<^verbatim>\<open>src\<close> attribute (if any) of
    each \<^verbatim>\<open>div.gridItem.assetType_photo img.asset_image\<close> in it, in order; otherwise
    \<open>Content\<close>, with the result of \<^verbatim>\<open>goquery.OuterHtml\<close> (\<open>None\<close> for an error).
\<close>

record document =
  pageHeader :: string
  titleSpan :: "string option"
  children :: "node list"

text \<open>
  A member of a zip archive: its name, whether \<^verbatim>\<open>f.FileInfo().IsDir()\<close> holds, and what
  reading it gives: \<^verbatim>\<open>f.Open()\<close> fails, \<^verbatim>\<open>io.Copy\<close> fails after writing some bytes, or
  the content is read.
\<close>

datatype zip_read = OpenFails | CopyFails string | Reads string

record zipFile =
  Name :: string
  IsDir :: bool
  contents :: zip_read

text \<open>
  What the program takes from outside: the libraries (\<^verbatim>\<open>time.Parse\<close>, the HTML parser
  behind \<^verbatim>\<open>goquery\<close>, the HTML-to-Markdown converter, \<^verbatim>\<open>uuid.New().String()\<close> as the
  string of the n-th call, \<^verbatim>\<open>zip.OpenReader\<close>) and the paths at which the operating
  system refuses to create a file or directory. (\<^verbatim>\<open>uuid.New\<close> panics when the random
  source fails; the generator of the model always delivers.)
\<close>

record env =
  timeParse :: "string \<Rightarrow> string \<Rightarrow> parse_error + time"
  parseHTML :: "string \<Rightarrow> document"
  convertString :: "string \<Rightarrow> string option"
  uuidString :: "nat \<Rightarrow> string"
  openZip :: "string \<Rightarrow> zipFile list option"
  denied :: "string \<Rightarrow> bool"

definition isFile :: "world \<Rightarrow> string \<Rightarrow> bool" where
  "isFile wld p = (map_of (files wld) p \<noteq> None)"

text \<open>
  The root is a directory; another path is a directory when it was created or when
  something exists below it.
\<close>

definition isDirectory :: "world \<Rightarrow> string \<Rightarrow> bool" where
  "isDirectory wld p =
     (p = [Separator] \<or>
      (p \<noteq> [] \<and>
       (list_ex (\<lambda>q. q = p \<or> strings_HasPrefix q (p @ [Separator])) (dirs wld) \<or>
        list_ex (\<lambda>q. strings_HasPrefix q (p @ [Separator])) (map fst (files wld)))))"

text \<open>
  \<^verbatim>\<open>os.Stat\<close>. The system walks the path: the directories on the way to it, which are
  its prefixes that end before a separator (the root for a separator at the start),
  and then the path itself. The first element that cannot be passed decides the
  error: its name has more than 255 bytes (\<^verbatim>\<open>ENAMETOOLONG\<close>), it is a regular file
  on the way (\<^verbatim>\<open>ENOTDIR\<close>), or nothing is there (\<^verbatim>\<open>ENOENT\<close>). A path of more than 4095
  bytes is refused before the walk, and the empty path does not exist. The limits are
  those of Linux.
\<close>

datatype stat_error = ENOENT | ENOTDIR | ENAMETOOLONG

definition pathPrefixes :: "string \<Rightarrow> string list" where
  "pathPrefixes p =
     map (\<lambda>i. if i = 0 then [Separator] else take i p)
       (filter (\<lambda>i. p ! i = Separator) [0..<length p]) @ [p]"

fun statErr :: "world \<Rightarrow> string list \<Rightarrow> stat_error option" where
  "statErr wld [] = None"
| "statErr wld (q # qs) =
     (if 255 < length (filepath_Base q) then Some ENAMETOOLONG
      else if isFile wld q then (if qs = [] then None else Some ENOTDIR)
      else if isDirectory wld q then statErr wld qs
      else Some ENOENT)"

definition os_Stat :: "world \<Rightarrow> string \<Rightarrow> stat_error option" where
  "os_Stat wld p =
     (if p = [] then Some ENOENT
      else if 4095 < length p then Some ENAMETOOLONG
      else statErr wld (pathPrefixes p))"

text \<open>\<^verbatim>\<open>os.Stat\<close> followed by \<^verbatim>\<open>os.IsNotExist\<close>: true for \<^verbatim>\<open>ENOENT\<close> only.\<close>

definition notExist :: "world \<Rightarrow> string \<Rightarrow> bool" where
  "notExist wld p = (os_Stat wld p = Some ENOENT)"

definition logPrintf :: "log_line \<Rightarrow> world \<Rightarrow> world" where
  "logPrintf l wld = wld\<lparr>logOutput := logOutput wld @ [l]\<rparr>"

text \<open>
  \<^verbatim>\<open>os.MkdirAll\<close>: nothing to do when the directory exists; an error when the path is
  a regular file or the system refuses; otherwise the directory is created.
\<close>

definition os_MkdirAll :: "env \<Rightarrow> world \<Rightarrow> string \<Rightarrow> world option" where
  "os_MkdirAll e wld p =
     (if isDirectory wld p then Some wld
      else if isFile wld p \<or> denied e p then None
      else Some (wld\<lparr>dirs := p # dirs wld\<rparr>))"

text \<open>
  Creating or truncating a file and writing \<open>data\<close> to it (\<^verbatim>\<open>os.WriteFile\<close>,
  \<^verbatim>\<open>os.Create\<close>, \<^verbatim>\<open>os.OpenFile\<close> with \<^verbatim>\<open>O_CREATE|O_TRUNC\<close>): refused by the system, or the
  path is a directory.
\<close>

definition os_WriteFile :: "env \<Rightarrow> world \<Rightarrow> string \<Rightarrow> string \<Rightarrow> world option" where
  "os_WriteFile e wld p data =
     (if denied e p \<or> isDirectory wld p then None
      else Some (wld\<lparr>files := AList.update p data (files wld)\<rparr>))"

section \<open>Entry extraction\<close>

text \<open>
  \<^verbatim>\<open>MarkdownEntry\<close>. The Go map \<open>Media\<close> is an association list with one pair for each
  key: assigning to a key that is present replaces its value.
\<close>

record MarkdownEntry =
  CreationDate :: time
  Title :: string
  MarkdownText :: string
  Media :: "(string \<times> string) list"

text \<open>
  The state of the loop over the children of the page container: the entry under
  construction (the closure updates \<^verbatim>\<open>entry.Media\<close>), the string builder and the
  world.
\<close>

record extraction =
  entry :: MarkdownEntry
  bodyMarkdownBuilder :: string
  wld :: world

definition LF :: char where
  "LF = CHR 0x0A"

definition writeString :: "string \<Rightarrow> extraction \<Rightarrow> extraction" where
  "writeString s x = x\<lparr>bodyMarkdownBuilder := bodyMarkdownBuilder x @ s\<rparr>"

text \<open>
  \<^verbatim>\<open>fmt.Sprintf("![](media/%s)\n\n", newImageName)\<close>: the image reference and a blank
  line.
\<close>

definition imageRef :: "string \<Rightarrow> string" where
  "imageRef newImageName = ''![](media/'' @ newImageName @ '')''"

definition imageFragment :: "string \<Rightarrow> string" where
  "imageFragment newImageName = imageRef newImageName @ [LF, LF]"

text \<open>The body of the inner \<^verbatim>\<open>Each\<close>: one image of an asset grid.\<close>

definition processImage :: "env \<Rightarrow> string \<Rightarrow> extraction \<Rightarrow> string option \<Rightarrow> extraction" where
  "processImage e htmlFilePath x src =
     (case src of
        None \<Rightarrow> x
      | Some imgSrc \<Rightarrow>
          let originalImageName = filepath_Base imgSrc;
              newImageName = uuidString e (uuidCalls (wld x)) @ ''-'' @ originalImageName;
              x1 = x\<lparr>wld := (wld x)\<lparr>uuidCalls := Suc (uuidCalls (wld x))\<rparr>\<rparr>;
              absImgSrc = filepath_Clean (filepath_Join [filepath_Dir htmlFilePath, imgSrc])
          in if notExist (wld x1) absImgSrc
             then x1\<lparr>wld := logPrintf (LogImageNotFound absImgSrc htmlFilePath) (wld x1)\<rparr>
             else writeString (imageFragment newImageName)
                    (x1\<lparr>entry := (entry x1)\<lparr>Media :=
                            AList.update absImgSrc newImageName (Media (entry x1))\<rparr>\<rparr>))"

text \<open>The body of the outer \<^verbatim>\<open>Each\<close>: one child of the page container.\<close>

definition processNode :: "env \<Rightarrow> string \<Rightarrow> extraction \<Rightarrow> node \<Rightarrow> extraction" where
  "processNode e htmlFilePath x s =
     (case s of
        HeaderOrTitle \<Rightarrow> x
      | AssetGrid imgs \<Rightarrow> foldl (processImage e htmlFilePath) x imgs
      | Content outer \<Rightarrow>
          (case outer of
             None \<Rightarrow> x\<lparr>wld := logPrintf (LogNoHTMLContent htmlFilePath) (wld x)\<rparr>
           | Some htmlContent \<Rightarrow>
               (case convertString e htmlContent of
                  None \<Rightarrow> x\<lparr>wld := logPrintf (LogConversionError htmlFilePath) (wld x)\<rparr>
                | Some markdownFrag \<Rightarrow>
                    writeString (strings_TrimSpace markdownFrag @ [LF, LF]) x)))"

definition assemble :: "env \<Rightarrow> string \<Rightarrow> extraction \<Rightarrow> node list \<Rightarrow> extraction" where
  "assemble e htmlFilePath x nodes = foldl (processNode e htmlFilePath) x nodes"

text \<open>The title: the title element when there is one, otherwise from the file name.\<close>

definition fallbackTitle :: "string \<Rightarrow> string" where
  "fallbackTitle htmlFilePath =
     (let fn0 = filepath_Base htmlFilePath;
          fn = strings_TrimSuffix fn0 (filepath_Ext fn0);
          parts = strings_SplitN2 fn ''_''
      in if 1 < length parts \<and> strings_Contains (parts ! 0) ''-''
         then strings_ReplaceAll (parts ! 1) ''_'' '' ''
         else [])"

definition extractTitle :: "document \<Rightarrow> string \<Rightarrow> string" where
  "extractTitle doc htmlFilePath =
     (case titleSpan doc of
        Some text \<Rightarrow> strings_TrimSpace text
      | None \<Rightarrow> fallbackTitle htmlFilePath)"

text \<open>
  \<^verbatim>\<open>entry.MarkdownText\<close>: the body under a level-one heading when there is a title,
  the body alone otherwise.
\<close>

definition markdownText :: "string \<Rightarrow> string \<Rightarrow> string" where
  "markdownText title finalMarkdown =
     (if title \<noteq> [] then ''# '' @ title @ [LF, LF] @ finalMarkdown else finalMarkdown)"

text \<open>
  The end of \<^verbatim>\<open>processEntryHTML\<close>, from \<^verbatim>\<open>finalMarkdown\<close> on: the Markdown text and the
  check for an empty entry.
\<close>

definition finishEntry :: "string \<Rightarrow> extraction \<Rightarrow> error + MarkdownEntry" where
  "finishEntry htmlFilePath x =
     (let finalMarkdown = strings_TrimSpace (bodyMarkdownBuilder x);
          ent = (entry x)\<lparr>MarkdownText := markdownText (Title (entry x)) finalMarkdown\<rparr>
      in if MarkdownText ent = [] \<and> length (Media ent) = 0
         then Inl (EmptyEntryError htmlFilePath)
         else Inr ent)"

text \<open>
  The state before the loop over the children: the entry with its date and title,
  an empty \<open>Media\<close> map and an empty builder.
\<close>

definition startExtraction :: "time \<Rightarrow> string \<Rightarrow> world \<Rightarrow> extraction" where
  "startExtraction creationTime title w0 =
     \<lparr>entry = \<lparr>CreationDate = creationTime, Title = title, MarkdownText = [], Media = []\<rparr>,
      bodyMarkdownBuilder = [], wld = w0\<rparr>"

text \<open>
  The entry document once parsed: date, title, body. The result is the value
  returned and the world after the call.
\<close>

definition extractEntry ::
  "env \<Rightarrow> world \<Rightarrow> string \<Rightarrow> document \<Rightarrow> (error + MarkdownEntry) \<times> world" where
  "extractEntry e w0 htmlFilePath doc =
     (let dateStr = strings_TrimSpace (pageHeader doc)
      in if dateStr = [] then (Inl (MissingDateError htmlFilePath), w0)
         else
           (case parseAppleDate (timeParse e) dateStr of
              (_, Some err) \<Rightarrow> (Inl (CouldNotParseDate dateStr htmlFilePath err), w0)
            | (creationTime, None) \<Rightarrow>
                (let x = assemble e htmlFilePath
                           (startExtraction creationTime (extractTitle doc htmlFilePath) w0)
                           (children doc)
                 in (finishEntry htmlFilePath x, wld x))))"

text \<open>
  \<^verbatim>\<open>processEntryHTML\<close>: opening a path that is not in the file system fails; reading
  a directory fails in the HTML parser; a regular file always parses.
\<close>

definition processEntryHTML ::
  "env \<Rightarrow> world \<Rightarrow> string \<Rightarrow> (error + MarkdownEntry) \<times> world" where
  "processEntryHTML e w0 htmlFilePath =
     (case map_of (files w0) htmlFilePath of
        None \<Rightarrow>
          if isDirectory w0 htmlFilePath then (Inl (HTMLParseError htmlFilePath), w0)
          else (Inl (OpenError htmlFilePath), w0)
      | Some html \<Rightarrow> extractEntry e w0 htmlFilePath (parseHTML e html))"

section \<open>The entry writer\<close>

text \<open>
  \<^verbatim>\<open>copyFile\<close>: the source is opened, the destination created, the content copied.
  Copying from a directory fails after the destination was created.
\<close>

definition copyFile :: "env \<Rightarrow> world \<Rightarrow> string \<Rightarrow> string \<Rightarrow> bool \<times> world" where
  "copyFile e w0 src dst =
     (case map_of (files w0) src of
        Some data \<Rightarrow>
          (case os_WriteFile e w0 dst data of
             None \<Rightarrow> (False, w0)
           | Some w1 \<Rightarrow> (True, w1))
      | None \<Rightarrow>
          if isDirectory w0 src then
            (case os_WriteFile e w0 dst [] of
               None \<Rightarrow> (False, w0)
             | Some w1 \<Rightarrow> (False, w1))
          else (False, w0))"

text \<open>Decimal digits, and \<^verbatim>\<open>appendInt\<close> of package \<^verbatim>\<open>time\<close>: zero padded to a width.\<close>

fun natDigits :: "nat \<Rightarrow> string" where
  "natDigits n =
     (if n < 10 then [char_of (48 + n)]
      else natDigits (n div 10) @ [char_of (48 + n mod 10)])"

declare natDigits.simps [simp del]

definition appendInt :: "int \<Rightarrow> nat \<Rightarrow> string" where
  "appendInt x width =
     (let ds = natDigits (nat \<bar>x\<bar>)
      in (if x < 0 then ''-'' else []) @ replicate (width - length ds) (CHR ''0'') @ ds)"

text \<open>\<^verbatim>\<open>t.Format("2006-01-02")\<close>\<close>

definition formatDate :: "time \<Rightarrow> string" where
  "formatDate t =
     appendInt (Year t) 4 @ ''-'' @ appendInt (int (Month t)) 2 @ ''-'' @ appendInt (int (Day t)) 2"

definition safeTitle :: "string \<Rightarrow> string" where
  "safeTitle title =
     strings_ReplaceAll (strings_ReplaceAll title ''/'' ''-'') [CHR 0x22] [CHR 0x27]"

definition entryFileName :: "MarkdownEntry \<Rightarrow> string" where
  "entryFileName ent = formatDate (CreationDate ent) @ ''-'' @ safeTitle (Title ent) @ ''.md''"

text \<open>
  One round of the loop that copies the media files. Go ranges over the map in an
  unspecified order; the model takes the pairs in the order of the list.
\<close>

definition copyMedia :: "env \<Rightarrow> string \<Rightarrow> world \<Rightarrow> string \<times> string \<Rightarrow> world" where
  "copyMedia e mediaDir w0 m =
     (let dst = filepath_Join [mediaDir, snd m]
      in (case copyFile e w0 (fst m) dst of
            (True, w1) \<Rightarrow> w1
          | (False, w1) \<Rightarrow> logPrintf (LogCopyFailed (fst m) dst) w1))"

definition saveMarkdownFile ::
  "env \<Rightarrow> world \<Rightarrow> string \<Rightarrow> MarkdownEntry \<Rightarrow> error option \<times> world" where
  "saveMarkdownFile e w0 outputDir ent =
     (let mediaDir = filepath_Join [outputDir, ''media'']
      in (case os_MkdirAll e w0 mediaDir of
            None \<Rightarrow> (Some (MediaDirError mediaDir), w0)
          | Some w1 \<Rightarrow>
              (let w2 = foldl (copyMedia e mediaDir) w1 (Media ent);
                   filePath = filepath_Join [outputDir, entryFileName ent]
               in (case os_WriteFile e w2 filePath (MarkdownText ent) of
                     None \<Rightarrow> (Some (WriteError filePath), w2)
                   | Some w3 \<Rightarrow> (None, logPrintf (LogSaved filePath) w3)))))"

section \<open>The archive stager\<close>

text \<open>The check of \<^verbatim>\<open>unzip\<close> on the path an archive member is extracted to.\<close>

definition legalPath :: "string \<Rightarrow> string \<Rightarrow> bool" where
  "legalPath dest fpath = strings_HasPrefix fpath (filepath_Clean dest @ [Separator])"

text \<open>
  The loop over the members of the archive. A member that is a directory is created
  and the error of \<^verbatim>\<open>os.MkdirAll\<close> dropped; for a file the parent directory is
  created, the file is created empty and the content copied into it.
\<close>

fun unzipFiles :: "env \<Rightarrow> world \<Rightarrow> string \<Rightarrow> zipFile list \<Rightarrow> error option \<times> world" where
  "unzipFiles e w0 dest [] = (None, w0)"
| "unzipFiles e w0 dest (f # fs) =
     (let fpath = filepath_Join [dest, Name f]
      in if \<not> legalPath dest fpath then (Some (IllegalFilePath fpath), w0)
         else if IsDir f then
           (case os_MkdirAll e w0 fpath of
              None \<Rightarrow> unzipFiles e w0 dest fs
            | Some w1 \<Rightarrow> unzipFiles e w1 dest fs)
         else
           (case os_MkdirAll e w0 (filepath_Dir fpath) of
              None \<Rightarrow> (Some (MkdirError (filepath_Dir fpath)), w0)
            | Some w1 \<Rightarrow>
                (case os_WriteFile e w1 fpath [] of
                   None \<Rightarrow> (Some (CreateError fpath), w1)
                 | Some w2 \<Rightarrow>
                     (case contents f of
                        OpenFails \<Rightarrow> (Some (ZipReadError (Name f)), w2)
                      | CopyFails written \<Rightarrow>
                          (Some (ZipReadError (Name f)),
                           w2\<lparr>files := AList.update fpath written (files w2)\<rparr>)
                      | Reads data \<Rightarrow>
                          unzipFiles e (w2\<lparr>files := AList.update fpath data (files w2)\<rparr>)
                            dest fs))))"

definition unzip :: "env \<Rightarrow> world \<Rightarrow> string \<Rightarrow> string \<Rightarrow> error option \<times> world" where
  "unzip e w0 src dest =
     (case openZip e src of
        None \<Rightarrow> (Some (ZipOpenError src), w0)
      | Some r \<Rightarrow>
          (case os_MkdirAll e w0 dest of
             None \<Rightarrow> (Some (MkdirError dest), w0)
           | Some w1 \<Rightarrow> unzipFiles e w1 dest r))"

section \<open>The conversion driver\<close>

text \<open>
  One call of the function that \<^verbatim>\<open>main\<close> passes to \<^verbatim>\<open>filepath.WalkDir\<close>: the path, the
  name and kind of the directory entry, and whether the walk reports an error for it.
\<close>

record visit =
  path :: string
  dName :: string
  dIsDir :: bool
  walkErr :: bool

text \<open>\<^verbatim>\<open>strings.ToLower\<close> on ASCII letters; other bytes are kept.\<close>

definition toLowerChar :: "char \<Rightarrow> char" where
  "toLowerChar c =
     (if 65 \<le> (of_char c :: nat) \<and> (of_char c :: nat) \<le> 90 then char_of (of_char c + 32 :: nat)
      else c)"

definition strings_ToLower :: "string \<Rightarrow> string" where
  "strings_ToLower s = map toLowerChar s"

text \<open>
  The callback. The state is the world and \<^verbatim>\<open>processedCount\<close>; the callback always
  returns \<^verbatim>\<open>nil\<close>, so the walk goes on to the next entry.
\<close>

definition walkFn :: "env \<Rightarrow> string \<Rightarrow> world \<times> nat \<Rightarrow> visit \<Rightarrow> world \<times> nat" where
  "walkFn e outputDir st v =
     (let w0 = fst st; processedCount = snd st
      in if walkErr v then (logPrintf (LogErrorAccessing (path v)) w0, processedCount)
         else if dIsDir v \<or> \<not> strings_HasSuffix (strings_ToLower (dName v)) ''.html''
           then (w0, processedCount)
         else
           (case processEntryHTML e (logPrintf (LogProcessingEntry (path v)) w0) (path v) of
              (Inl procErr, w1) \<Rightarrow>
                (logPrintf (LogEntrySkipped (path v) procErr) w1, processedCount)
            | (Inr ent, w1) \<Rightarrow>
                (case saveMarkdownFile e w1 outputDir ent of
                   (Some err, w2) \<Rightarrow>
                     (logPrintf (LogErrorSaving (path v) err) w2, Suc processedCount)
                 | (None, w2) \<Rightarrow> (w2, Suc processedCount))))"

text \<open>
  Step 5 of \<^verbatim>\<open>main\<close>: the walk over the entries, then the two closing log lines. The
  result is the final world and the count that was logged.
\<close>

definition processEntries :: "env \<Rightarrow> world \<Rightarrow> string \<Rightarrow> visit list \<Rightarrow> world \<times> nat" where
  "processEntries e w0 outputDir visits =
     (let st = foldl (walkFn e outputDir) (w0, 0) visits
      in (logPrintf (LogOutputWritten outputDir) (logPrintf (LogComplete (snd st)) (fst st)),
          snd st))"

section \<open>The fragments of an entry, in the words of the specification\<close>

text \<open>
  The name given to the image of the n-th call of the generator, and the path its
  source resolves to.
\<close>

definition newImageName :: "env \<Rightarrow> nat \<Rightarrow> string \<Rightarrow> string" where
  "newImageName e n imgSrc = uuidString e n @ ''-'' @ filepath_Base imgSrc"

definition absImgSrc :: "string \<Rightarrow> string \<Rightarrow> string" where
  "absImgSrc htmlFilePath imgSrc =
     filepath_Clean (filepath_Join [filepath_Dir htmlFilePath, imgSrc])"

text \<open>
  One Markdown fragment for each image of a grid that has a source which exists on
  disk, in the order of the images; \<open>n\<close> counts the identifiers generated before.
\<close>

fun imageRefs :: "env \<Rightarrow> string \<Rightarrow> world \<Rightarrow> nat \<Rightarrow> string option list \<Rightarrow> string list" where
  "imageRefs e p w n [] = []"
| "imageRefs e p w n (None # imgs) = imageRefs e p w n imgs"
| "imageRefs e p w n (Some imgSrc # imgs) =
     (if notExist w (absImgSrc p imgSrc) then []
      else [imageRef (newImageName e n imgSrc)]) @
     imageRefs e p w (Suc n) imgs"

fun nodeFragments :: "env \<Rightarrow> string \<Rightarrow> world \<Rightarrow> nat \<Rightarrow> node \<Rightarrow> string list" where
  "nodeFragments e p w n HeaderOrTitle = []"
| "nodeFragments e p w n (AssetGrid imgs) = imageRefs e p w n imgs"
| "nodeFragments e p w n (Content None) = []"
| "nodeFragments e p w n (Content (Some htmlContent)) =
     (case convertString e htmlContent of
        None \<Rightarrow> []
      | Some markdownFrag \<Rightarrow> [strings_TrimSpace markdownFrag])"

fun uuidsUsed :: "node \<Rightarrow> nat" where
  "uuidsUsed (AssetGrid imgs) = length (filter (\<lambda>i. i \<noteq> None) imgs)"
| "uuidsUsed _ = 0"

fun fragments :: "env \<Rightarrow> string \<Rightarrow> world \<Rightarrow> nat \<Rightarrow> node list \<Rightarrow> string list" where
  "fragments e p w n [] = []"
| "fragments e p w n (s # ss) =
     nodeFragments e p w n s @ fragments e p w (n + uuidsUsed s) ss"

text \<open>
  The fallback title in the words of the specification: the file name without its
  extension matches \<^verbatim>\<open><id>-<rest>\<close>, a prefix, a hyphen and a remainder, and the title is
  the remainder with underscores replaced by spaces; otherwise the title is empty.
\<close>

definition spec_fallbackTitle :: "string \<Rightarrow> string" where
  "spec_fallbackTitle htmlFilePath =
     (let fn0 = filepath_Base htmlFilePath;
          fn = strings_TrimSuffix fn0 (filepath_Ext fn0)
      in case strings_Index fn ''-'' of
           None \<Rightarrow> []
         | Some i \<Rightarrow> strings_ReplaceAll (drop (Suc i) fn) ''_'' '' '')"

section \<open>Notions used in the statements and proofs\<close>

text \<open>A fragment that is not empty and has no white space at either end.\<close>

definition trimmed :: "string \<Rightarrow> bool" where
  "trimmed f = (f \<noteq> [] \<and> leadingSpace f = None \<and> trailingSpace f = None)"

text \<open>
  An ordinary path element: not empty, not \<^verbatim>\<open>.\<close> or \<^verbatim>\<open>..\<close>, without a separator.
\<close>

definition plain :: "string \<Rightarrow> bool" where
  "plain x = (x \<noteq> [] \<and> x \<noteq> ''.'' \<and> x \<noteq> ''..'' \<and> Separator \<notin> set x)"

text \<open>
  What the buffer of \<open>cleanElems\<close> (last element first) looks like: ordinary
  elements, after a run of \<^verbatim>\<open>..\<close> at the start of a path that is not rooted.
\<close>

fun normalOut :: "bool \<Rightarrow> string list \<Rightarrow> bool" where
  "normalOut r [] = True"
| "normalOut r (x # xs) =
     (if x = ''..'' then \<not> r \<and> list_all (\<lambda>y. y = ''..'') xs
      else plain x \<and> normalOut r xs)"

text \<open>The path that \<open>filepath_Clean\<close> writes for a list of elements.\<close>

definition render :: "bool \<Rightarrow> string list \<Rightarrow> string" where
  "render r xs =
     (if r then Separator # strings_Join xs [Separator]
      else if xs = [] then ''.''
      else strings_Join xs [Separator])"

text \<open>
  A path lies below a directory when it is the directory, a separator and one or
  more ordinary elements separated by separators.
\<close>

definition below :: "string \<Rightarrow> string \<Rightarrow> bool" where
  "below dir p =
     (strings_HasPrefix p (dir @ [Separator]) \<and>
      list_all plain (pathElems (drop (Suc (length dir)) p)))"


text \<open>The number of days of month \<open>m\<close> in year \<open>y\<close> of the Gregorian calendar.\<close>

definition calendarDays :: "nat \<Rightarrow> nat \<Rightarrow> nat" where
  "calendarDays m y =
     (if m = 2 then (if y mod 4 = 0 \<and> (y mod 100 \<noteq> 0 \<or> y mod 400 = 0) then 29 else 28)
      else if m \<in> {4, 6, 9, 11} then 30
      else 31)"

text \<open>A date of the calendar whose year is written with four digits.\<close>

definition validDate :: "nat \<Rightarrow> nat \<Rightarrow> nat \<Rightarrow> bool" where
  "validDate y m d = (y \<le> 9999 \<and> 1 \<le> m \<and> m \<le> 12 \<and> 1 \<le> d \<and> d \<le> calendarDays m y)"

text \<open>
  The header of an entry as the specification writes it, \<^verbatim>\<open>Weekday, Month D, YYYY\<close>: the
  weekday text, a comma and a space, and the date: the name of the month (\<open>names\<close> is
  the table of the full or of the abbreviated month names), a space, the day of the
  month in decimal digits, a comma and a space, the year in four digits.
\<close>

definition dateText :: "string list \<Rightarrow> nat \<Rightarrow> nat \<Rightarrow> nat \<Rightarrow> string" where
  "dateText names y m d =
     names ! (m - 1) @ '' '' @ natDigits d @ '', '' @ appendInt (int y) 4"

definition headerText :: "string \<Rightarrow> string list \<Rightarrow> nat \<Rightarrow> nat \<Rightarrow> nat \<Rightarrow> string" where
  "headerText weekday names y m d = weekday @ '', '' @ dateText names y m d"

text \<open>
  A visit of the walk whose entry document is extracted: a regular file with the
  extension \<^verbatim>\<open>.html\<close> for which \<^verbatim>\<open>processEntryHTML\<close> returns an entry.
\<close>

definition extracted :: "env \<Rightarrow> world \<Rightarrow> visit \<Rightarrow> bool" where
  "extracted e w v =
     (\<not> walkErr v \<and> \<not> dIsDir v \<and> strings_HasSuffix (strings_ToLower (dName v)) ''.html'' \<and>
      \<not> isl (fst (processEntryHTML e (logPrintf (LogProcessingEntry (path v)) w) (path v))))"

section \<open>A worked example\<close>

text \<open>
  The scenario of the specification: an entry with the header
  \<^verbatim>\<open>Tuesday, December 12, 2023\<close>, the title \<^verbatim>\<open>Morning Walk\<close>, one paragraph and one image
  \<^verbatim>\<open>photo.jpg\<close> that exists. \<open>twiceDoc\<close> shows the same image twice; \<open>blankDoc\<close> has a
  header and nothing else.
\<close>

definition exampleUuid :: "nat \<Rightarrow> string" where
  "exampleUuid n =
     ''00000000-0000-4000-8000-'' @ replicate (12 - length (natDigits n)) (CHR ''0'') @
     natDigits n"

definition exampleDoc :: document where
  "exampleDoc =
     \<lparr>pageHeader = ''Tuesday, December 12, 2023'', titleSpan = Some ''Morning Walk'',
      children = [HeaderOrTitle, HeaderOrTitle, Content (Some ''<p>A walk.</p>''),
                  AssetGrid [Some ''../Resources/photo.jpg'']]\<rparr>"

definition twiceDoc :: document where
  "twiceDoc =
     \<lparr>pageHeader = ''Tuesday, December 12, 2023'', titleSpan = Some ''Morning Walk'',
      children = [HeaderOrTitle, HeaderOrTitle,
                  AssetGrid [Some ''../Resources/photo.jpg'', Some ''../Resources/photo.jpg'']]\<rparr>"

definition blankDoc :: document where
  "blankDoc =
     \<lparr>pageHeader = ''Tuesday, December 12, 2023'', titleSpan = None,
      children = [HeaderOrTitle]\<rparr>"

text \<open>
  \<open>longDoc\<close> is an entry whose title has 300 bytes: its file name is longer than the
  system allows, and writing the Markdown file fails.
\<close>

definition longDoc :: document where
  "longDoc =
     \<lparr>pageHeader = ''Tuesday, December 12, 2023'',
      titleSpan = Some (replicate 300 (CHR ''a'')),
      children = [HeaderOrTitle, HeaderOrTitle, Content (Some ''<p>A walk.</p>'')]\<rparr>"

definition exampleArchive :: "zipFile list" where
  "exampleArchive =
     [\<lparr>Name = ''Entries/'', IsDir = True, contents = Reads []\<rparr>,
      \<lparr>Name = ''Entries/walk.html'', IsDir = False, contents = Reads ''walk''\<rparr>,
      \<lparr>Name = ''../evil.sh'', IsDir = False, contents = Reads ''rm''\<rparr>,
      \<lparr>Name = ''Resources/photo.jpg'', IsDir = False, contents = Reads ''JPEG''\<rparr>]"

text \<open>
  The system of the example refuses a file name of more than 255 bytes, as Linux
  file systems do.
\<close>

definition exampleEnv :: env where
  "exampleEnv =
     \<lparr>timeParse = time_Parse,
      parseHTML = (\<lambda>html. if html = ''walk'' then exampleDoc
                          else if html = ''twice'' then twiceDoc
                          else if html = ''long'' then longDoc
                          else blankDoc),
      convertString = (\<lambda>h. if h = ''<p>A walk.</p>'' then Some ''A walk.'' else None),
      uuidString = exampleUuid,
      openZip = (\<lambda>src. if src = ''journal.zip'' then Some exampleArchive else None),
      denied = (\<lambda>p. 255 < length (filepath_Base p))\<rparr>"


definition exampleWorld :: world where
  "exampleWorld =
     \<lparr>files = [(''/tmp/x/Entries/walk.html'', ''walk''),
               (''/tmp/x/Entries/twice.html'', ''twice''),
               (''/tmp/x/Entries/blank.html'', ''blank''),
               (''/tmp/x/Entries/long.html'', ''long''),
               (''/tmp/x/Resources/photo.jpg'', ''JPEG'')],
      dirs = [], uuidCalls = 0, logOutput = []\<rparr>"

text \<open>The visit of the walk for a regular file of the entries directory.\<close>

definition entryVisit :: "string \<Rightarrow> visit" where
  "entryVisit name =
     \<lparr>path = ''/tmp/x/Entries/'' @ name, dName = name, dIsDir = False, walkErr = False\<rparr>"

text \<open>The entry that the example yields.\<close>

definition exampleEntry :: MarkdownEntry where
  "exampleEntry =
     \<lparr>CreationDate = time_Date 2023 12 12 12 0 0 0 UTC,
      Title = ''Morning Walk'',
      MarkdownText =
        ''# Morning Walk'' @ [LF, LF] @ ''A walk.'' @ [LF, LF] @
        ''![](media/00000000-0000-4000-8000-000000000000-photo.jpg)'',
      Media = [(''/tmp/x/Resources/photo.jpg'',
                ''00000000-0000-4000-8000-000000000000-photo.jpg'')]\<rparr>"

section \<open>Properties of white space\<close>

lemma spaceRunes_LF: "w \<in> set spaceRunes \<Longrightarrow> LF \<notin> set (tl w) \<and> LF \<notin> set (butlast w)"
  by (auto simp: spaceRunes_def LF_def)

lemma HasPrefix_before_LF:
  assumes f: "f \<noteq> []" and w: "LF \<notin> set (tl w)"
  shows "strings_HasPrefix (f @ LF # r) w = strings_HasPrefix f w"
proof (cases "length w \<le> length f")
  case True
  then show ?thesis by (simp add: strings_HasPrefix_take)
next
  case False
  then have l: "length f < length w" by simp
  have "\<not> strings_HasPrefix f w"
    using l by (simp add: strings_HasPrefix_def)
  moreover have "\<not> strings_HasPrefix (f @ LF # r) w"
  proof
    assume "strings_HasPrefix (f @ LF # r) w"
    then have "take (length w) (f @ LF # r) = w" by (simp add: strings_HasPrefix_take)
    with l have "w = f @ take (length w - length f) (LF # r)" by simp
    with l obtain t where "w = f @ LF # t"
      by (cases "length w - length f") auto
    with f have "LF \<in> set (tl w)" by (cases f) auto
    with w show False by simp
  qed
  ultimately show ?thesis by simp
qed

lemma find_cong_set: "(\<And>x. x \<in> set xs \<Longrightarrow> P x = Q x) \<Longrightarrow> List.find P xs = List.find Q xs"
  by (induction xs) auto

lemma leadingSpace_before_LF: "f \<noteq> [] \<Longrightarrow> leadingSpace (f @ LF # r) = leadingSpace f"
  unfolding leadingSpace_def
  by (rule find_cong_set) (simp add: HasPrefix_before_LF spaceRunes_LF)

lemma HasSuffix_after_LF:
  assumes f: "f \<noteq> []" and w: "LF \<notin> set (butlast w)"
  shows "strings_HasSuffix (p @ LF # f) w = strings_HasSuffix f w"
proof -
  have "strings_HasSuffix (p @ LF # f) w = strings_HasPrefix (rev f @ LF # rev p) (rev w)"
    by (simp add: strings_HasSuffix_rev strings_HasPrefix_take)
  also have "\<dots> = strings_HasPrefix (rev f) (rev w)"
  proof (rule HasPrefix_before_LF)
    show "rev f \<noteq> []" using f by simp
    have "tl (rev w) = rev (butlast w)" by (cases w rule: rev_cases) simp_all
    with w show "LF \<notin> set (tl (rev w))" by simp
  qed
  also have "\<dots> = strings_HasSuffix f w"
    by (simp add: strings_HasSuffix_rev strings_HasPrefix_take)
  finally show ?thesis .
qed

lemma trailingSpace_after_LF: "f \<noteq> [] \<Longrightarrow> trailingSpace (p @ LF # f) = trailingSpace f"
  unfolding trailingSpace_def
  by (rule find_cong_set) (simp add: HasSuffix_after_LF spaceRunes_LF)

lemma trailingSpace_LF: "trailingSpace (s @ [LF]) = Some [LF]"
  by (simp add: trailingSpace_rev spaceRunes_def LF_def)

lemma trimRight_LF: "trimRight (s @ [LF]) = trimRight s"
  by (subst trimRight.simps) (simp add: trailingSpace_LF)

lemma trimLeft_None: "leadingSpace s = None \<Longrightarrow> trimLeft s = s"
  by (subst trimLeft.simps) simp

lemma trimRight_None: "trailingSpace s = None \<Longrightarrow> trimRight s = s"
  by (subst trimRight.simps) simp

lemma blank_lines_between:
  assumes "fs \<noteq> []" and "list_all trimmed fs"
  shows "concat (map (\<lambda>f. f @ [LF, LF]) fs) = strings_Join fs [LF, LF] @ [LF, LF] \<and>
         leadingSpace (strings_Join fs [LF, LF]) = None \<and>
         trailingSpace (strings_Join fs [LF, LF]) = None \<and>
         strings_Join fs [LF, LF] \<noteq> []"
  using assms
proof (induction fs)
  case Nil
  then show ?case by simp
next
  case (Cons f fs)
  then have f: "f \<noteq> []" "leadingSpace f = None" "trailingSpace f = None"
    by (simp_all add: trimmed_def)
  show ?case
  proof (cases "fs = []")
    case True
    with f show ?thesis by simp
  next
    case False
    with Cons have IH: "concat (map (\<lambda>f. f @ [LF, LF]) fs) = strings_Join fs [LF, LF] @ [LF, LF]"
      "trailingSpace (strings_Join fs [LF, LF]) = None" "strings_Join fs [LF, LF] \<noteq> []"
      by simp_all
    have j: "strings_Join (f # fs) [LF, LF] = f @ LF # LF # strings_Join fs [LF, LF]"
      using False by (cases fs) simp_all
    have "leadingSpace (strings_Join (f # fs) [LF, LF]) = None"
      using f by (simp add: j leadingSpace_before_LF)
    moreover have "trailingSpace (strings_Join (f # fs) [LF, LF]) = None"
      using trailingSpace_after_LF [OF IH(3), of "f @ [LF]"] IH(2) by (simp add: j)
    ultimately show ?thesis
      using IH(1) by (simp add: j)
  qed
qed

lemma TrimSpace_fragments:
  assumes "fs \<noteq> []" and "list_all trimmed fs"
  shows "strings_TrimSpace (concat (map (\<lambda>f. f @ [LF, LF]) fs)) = strings_Join fs [LF, LF]"
proof -
  let ?j = "strings_Join fs [LF, LF]"
  from blank_lines_between [OF assms]
  have c: "concat (map (\<lambda>f. f @ [LF, LF]) fs) = ?j @ [LF, LF]"
    and l: "leadingSpace ?j = None" and t: "trailingSpace ?j = None" and n: "?j \<noteq> []"
    by simp_all
  have "leadingSpace (?j @ [LF, LF]) = None"
    using leadingSpace_before_LF [OF n, of "[LF]"] l by simp
  then have "trimLeft (?j @ [LF, LF]) = ?j @ [LF, LF]"
    by (rule trimLeft_None)
  moreover have "trimRight (?j @ [LF, LF]) = ?j"
    using trimRight_LF [of "?j @ [LF]"] trimRight_LF [of ?j] trimRight_None [OF t] by simp
  ultimately show ?thesis
    by (simp add: strings_TrimSpace_def c)
qed


lemma leadingSpace_Nil: "leadingSpace [] = None"
  by (simp add: leadingSpace_def spaceRunes_def strings_HasPrefix_take)

lemma TrimSpace_Nil: "strings_TrimSpace [] = []"
  by (simp add: strings_TrimSpace_def trimLeft_None leadingSpace_Nil trimRight_None
      trailingSpace_rev spaceRunes_def)

lemma trimLeft_no_leading: "leadingSpace (trimLeft s) = None"
proof (induction s rule: trimLeft.induct)
  case (1 s)
  show ?case
  proof (cases "leadingSpace s")
    case None
    then show ?thesis by (simp add: trimLeft_None)
  next
    case (Some w)
    with 1 show ?thesis by (subst trimLeft.simps) simp
  qed
qed

lemma trimRight_no_trailing: "trailingSpace (trimRight s) = None"
proof (induction s rule: trimRight.induct)
  case (1 s)
  show ?case
  proof (cases "trailingSpace s")
    case None
    then show ?thesis by (simp add: trimRight_None)
  next
    case (Some w)
    with 1 show ?thesis by (subst trimRight.simps) simp
  qed
qed

lemma trimRight_take: "\<exists>k. trimRight s = take k s"
proof (induction s rule: trimRight.induct)
  case (1 s)
  show ?case
  proof (cases "trailingSpace s")
    case None
    then have "trimRight s = take (length s) s" by (simp add: trimRight_None)
    then show ?thesis ..
  next
    case (Some w)
    with 1 obtain k where "trimRight (take (length s - length w) s) = take k (take (length s - length w) s)"
      by blast
    with Some have "trimRight s = take (min k (length s - length w)) s"
      by (subst trimRight.simps) simp
    then show ?thesis ..
  qed
qed

lemma leadingSpace_take: "leadingSpace s = None \<Longrightarrow> leadingSpace (take k s) = None"
proof -
  assume n: "leadingSpace s = None"
  have "\<not> strings_HasPrefix (take k s) w" if "w \<in> set spaceRunes" for w
  proof
    assume h: "strings_HasPrefix (take k s) w"
    then have "length w \<le> k" "take (length w) (take k s) = w"
      by (auto simp: strings_HasPrefix_def)
    then have "strings_HasPrefix s w"
      by (simp add: strings_HasPrefix_take min_def)
    with n that show False
      by (auto simp: leadingSpace_def find_None_iff)
  qed
  then show ?thesis
    by (auto simp: leadingSpace_def find_None_iff)
qed

lemma TrimSpace_trimmed: "strings_TrimSpace s \<noteq> [] \<Longrightarrow> trimmed (strings_TrimSpace s)"
proof -
  assume n: "strings_TrimSpace s \<noteq> []"
  obtain k where k: "trimRight (trimLeft s) = take k (trimLeft s)"
    using trimRight_take by blast
  have "leadingSpace (strings_TrimSpace s) = None"
    unfolding strings_TrimSpace_def k by (rule leadingSpace_take) (rule trimLeft_no_leading)
  with n show ?thesis
    by (simp add: trimmed_def) (simp add: strings_TrimSpace_def trimRight_no_trailing)
qed

subsection \<open>Text with a graphic character at either end\<close>

lemma spaceRunes_bytes:
  "list_all (\<lambda>w. w \<noteq> [] \<and>
      ((of_char (hd w) :: nat) \<le> 32 \<or> 128 \<le> (of_char (hd w) :: nat)) \<and>
      ((of_char (last w) :: nat) \<le> 32 \<or> 128 \<le> (of_char (last w) :: nat))) spaceRunes"
  by code_simp

lemma spaceRunes_ends:
  assumes "w \<in> set spaceRunes"
  shows "w \<noteq> [] \<and> ((of_char (hd w) :: nat) \<le> 32 \<or> 128 \<le> (of_char (hd w) :: nat)) \<and>
         ((of_char (last w) :: nat) \<le> 32 \<or> 128 \<le> (of_char (last w) :: nat))"
  using spaceRunes_bytes assms unfolding list_all_iff by blast

lemma leadingSpace_graphic:
  assumes "33 \<le> (of_char c :: nat)" "(of_char c :: nat) < 128"
  shows "leadingSpace (c # s) = None"
proof -
  have "\<not> strings_HasPrefix (c # s) w" if "w \<in> set spaceRunes" for w
  proof
    assume "strings_HasPrefix (c # s) w"
    with spaceRunes_ends [OF that] have "hd w = c"
      by (cases w) (auto simp: strings_HasPrefix_take)
    with spaceRunes_ends [OF that] assms show False by auto
  qed
  then show ?thesis
    by (auto simp: leadingSpace_def find_None_iff)
qed

lemma trailingSpace_graphic:
  assumes "33 \<le> (of_char c :: nat)" "(of_char c :: nat) < 128"
  shows "trailingSpace (s @ [c]) = None"
proof -
  have "\<not> strings_HasSuffix (s @ [c]) w" if "w \<in> set spaceRunes" for w
  proof
    assume h: "strings_HasSuffix (s @ [c]) w"
    from spaceRunes_ends [OF that] have n: "w \<noteq> []" by simp
    from h have "take (length w) (c # rev s) = rev w"
      by (simp add: strings_HasSuffix_rev)
    with n have "hd (rev w) = c"
      by (cases "rev w") auto
    with n have "last w = c"
      by (simp add: hd_rev)
    with spaceRunes_ends [OF that] assms show False by auto
  qed
  then show ?thesis
    by (auto simp: trailingSpace_def find_None_iff)
qed

lemma TrimSpace_after_space:
  assumes "leadingSpace t = None" "trailingSpace t = None"
  shows "strings_TrimSpace (CHR '' '' # t) = t"
proof -
  have "leadingSpace (CHR '' '' # t) = Some '' ''"
    by (simp add: leadingSpace_def spaceRunes_def strings_HasPrefix_take)
  then have "trimLeft (CHR '' '' # t) = trimLeft t"
    by (subst trimLeft.simps) simp
  with assms show ?thesis
    by (simp add: strings_TrimSpace_def trimLeft_None trimRight_None)
qed

section \<open>Properties of the assembler\<close>

lemma processImage_None: "processImage e p x None = x"
  by (simp add: processImage_def)

lemma assemble_skip:
  "assemble e p x (pre @ AssetGrid (a @ None # b) # post) =
   assemble e p x (pre @ AssetGrid (a @ b) # post)"
  by (simp add: assemble_def processNode_def processImage_None)

lemma statErr_cong:
  assumes "files w = files w'" "dirs w = dirs w'"
  shows "statErr w qs = statErr w' qs"
proof -
  have "isFile w = isFile w'" "isDirectory w = isDirectory w'"
    using assms by (auto simp: isFile_def isDirectory_def fun_eq_iff)
  then show ?thesis
    by (induction qs) simp_all
qed

lemma notExist_cong: "files w = files w' \<Longrightarrow> dirs w = dirs w' \<Longrightarrow> notExist w p = notExist w' p"
  by (simp add: notExist_def os_Stat_def statErr_cong [of w w'])

lemma notExist_uuidCalls: "notExist (w\<lparr>uuidCalls := n\<rparr>) p = notExist w p"
  by (rule notExist_cong) simp_all

text \<open>What one image does to the state.\<close>

lemma processImage_Some:
  "processImage e p x (Some src) =
     (if notExist (wld x) (absImgSrc p src)
      then x\<lparr>wld := (wld x)\<lparr>uuidCalls := Suc (uuidCalls (wld x)),
               logOutput := logOutput (wld x) @ [LogImageNotFound (absImgSrc p src) p]\<rparr>\<rparr>
      else x\<lparr>wld := (wld x)\<lparr>uuidCalls := Suc (uuidCalls (wld x))\<rparr>,
             entry := (entry x)\<lparr>Media := AList.update (absImgSrc p src)
                         (newImageName e (uuidCalls (wld x)) src) (Media (entry x))\<rparr>,
             bodyMarkdownBuilder := bodyMarkdownBuilder x @
                imageFragment (newImageName e (uuidCalls (wld x)) src)\<rparr>)"
  by (simp add: processImage_def Let_def absImgSrc_def newImageName_def writeString_def
      logPrintf_def notExist_uuidCalls)

lemma processImage_frame:
  "files (wld (processImage e p x src)) = files (wld x) \<and>
   dirs (wld (processImage e p x src)) = dirs (wld x) \<and>
   Title (entry (processImage e p x src)) = Title (entry x) \<and>
   CreationDate (entry (processImage e p x src)) = CreationDate (entry x) \<and>
   MarkdownText (entry (processImage e p x src)) = MarkdownText (entry x)"
  by (cases src) (simp_all add: processImage_None processImage_Some)

lemma foldl_processImage_frame:
  "files (wld (foldl (processImage e p) x imgs)) = files (wld x) \<and>
   dirs (wld (foldl (processImage e p) x imgs)) = dirs (wld x) \<and>
   Title (entry (foldl (processImage e p) x imgs)) = Title (entry x) \<and>
   CreationDate (entry (foldl (processImage e p) x imgs)) = CreationDate (entry x) \<and>
   MarkdownText (entry (foldl (processImage e p) x imgs)) = MarkdownText (entry x)"
  by (induction imgs arbitrary: x) (simp_all add: processImage_frame)

lemma processNode_frame:
  "files (wld (processNode e p x s)) = files (wld x) \<and>
   dirs (wld (processNode e p x s)) = dirs (wld x) \<and>
   Title (entry (processNode e p x s)) = Title (entry x) \<and>
   CreationDate (entry (processNode e p x s)) = CreationDate (entry x) \<and>
   MarkdownText (entry (processNode e p x s)) = MarkdownText (entry x)"
  by (cases s)
    (simp_all add: processNode_def foldl_processImage_frame logPrintf_def writeString_def
      split: option.splits)

lemma assemble_frame:
  "files (wld (assemble e p x ns)) = files (wld x) \<and>
   dirs (wld (assemble e p x ns)) = dirs (wld x) \<and>
   Title (entry (assemble e p x ns)) = Title (entry x) \<and>
   CreationDate (entry (assemble e p x ns)) = CreationDate (entry x) \<and>
   MarkdownText (entry (assemble e p x ns)) = MarkdownText (entry x)"
  unfolding assemble_def by (induction ns arbitrary: x) (simp_all add: processNode_frame)

lemma extractEntry_frame:
  "files (snd (extractEntry e w p doc)) = files w \<and> dirs (snd (extractEntry e w p doc)) = dirs w"
  by (simp add: extractEntry_def Let_def assemble_frame startExtraction_def
      split: prod.splits option.splits)

lemma processEntryHTML_frame:
  "files (snd (processEntryHTML e w p)) = files w \<and> dirs (snd (processEntryHTML e w p)) = dirs w"
  by (simp add: processEntryHTML_def extractEntry_frame split: option.splits)

lemma imageRefs_cong:
  "files w = files w' \<Longrightarrow> dirs w = dirs w' \<Longrightarrow>
     imageRefs e p w n imgs = imageRefs e p w' n imgs"
proof (induction imgs arbitrary: n)
  case Nil
  then show ?case by simp
next
  case (Cons i imgs)
  then show ?case
    by (cases i) (simp_all add: notExist_cong [of w w'])
qed

lemma imageRefs_builder:
  "bodyMarkdownBuilder (foldl (processImage e p) x imgs) =
     bodyMarkdownBuilder x @
       concat (map (\<lambda>f. f @ [LF, LF]) (imageRefs e p (wld x) (uuidCalls (wld x)) imgs)) \<and>
   uuidCalls (wld (foldl (processImage e p) x imgs)) =
     uuidCalls (wld x) + length (filter (\<lambda>i. i \<noteq> None) imgs)"
proof (induction imgs arbitrary: x)
  case Nil
  then show ?case by simp
next
  case (Cons i imgs)
  show ?case
  proof (cases i)
    case None
    then show ?thesis using Cons [of x] by (simp add: processImage_None)
  next
    case (Some src)
    let ?x1 = "processImage e p x (Some src)"
    have ir: "\<And>n. imageRefs e p (wld ?x1) n imgs = imageRefs e p (wld x) n imgs"
      by (rule imageRefs_cong) (simp_all add: processImage_frame)
    show ?thesis using Cons [of ?x1] Some
      by (simp add: ir) (simp add: processImage_Some imageFragment_def)
  qed
qed


lemma nodeFragments_cong:
  "files w = files w' \<Longrightarrow> dirs w = dirs w' \<Longrightarrow>
     nodeFragments e p w n s = nodeFragments e p w' n s"
  by (cases "(e, p, w, n, s)" rule: nodeFragments.cases) (auto simp: imageRefs_cong [of w w'])

lemma fragments_cong:
  "files w = files w' \<Longrightarrow> dirs w = dirs w' \<Longrightarrow>
     fragments e p w n ss = fragments e p w' n ss"
  by (induction ss arbitrary: n) (simp_all add: nodeFragments_cong [of w w'])

lemma processNode_builder:
  "bodyMarkdownBuilder (processNode e p x s) =
     bodyMarkdownBuilder x @
       concat (map (\<lambda>f. f @ [LF, LF]) (nodeFragments e p (wld x) (uuidCalls (wld x)) s)) \<and>
   uuidCalls (wld (processNode e p x s)) = uuidCalls (wld x) + uuidsUsed s"
proof (cases s)
  case HeaderOrTitle
  then show ?thesis by (simp add: processNode_def)
next
  case (AssetGrid imgs)
  then show ?thesis by (simp add: processNode_def imageRefs_builder)
next
  case (Content outer)
  then show ?thesis
    by (cases outer)
      (simp_all add: processNode_def logPrintf_def writeString_def split: option.splits)
qed

lemma assemble_builder:
  "bodyMarkdownBuilder (assemble e p x ss) =
     bodyMarkdownBuilder x @
       concat (map (\<lambda>f. f @ [LF, LF]) (fragments e p (wld x) (uuidCalls (wld x)) ss))"
proof (induction ss arbitrary: x)
  case Nil
  then show ?case by (simp add: assemble_def)
next
  case (Cons s ss)
  let ?x1 = "processNode e p x s"
  have fr: "\<And>n. fragments e p (wld ?x1) n ss = fragments e p (wld x) n ss"
    by (rule fragments_cong) (simp_all add: processNode_frame)
  have "assemble e p x (s # ss) = assemble e p ?x1 ss"
    by (simp add: assemble_def)
  then show ?case
    using Cons [of ?x1] by (simp add: fr processNode_builder)
qed

lemma fragments_append:
  "fragments e p w n (ns @ ms) =
     fragments e p w n ns @ fragments e p w (n + sum_list (map uuidsUsed ns)) ms"
  by (induction ns arbitrary: n) (simp_all add: add.assoc)


lemma imageRef_trimmed: "trimmed (imageRef name)"
  by (simp add: imageRef_def trimmed_def leadingSpace_def trailingSpace_rev spaceRunes_def
      strings_HasPrefix_take)

lemma imageRefs_trimmed: "f \<in> set (imageRefs e p w n imgs) \<Longrightarrow> trimmed f"
proof (induction imgs arbitrary: n)
  case Nil
  then show ?case by simp
next
  case (Cons i imgs)
  then show ?case
    by (cases i) (auto simp: imageRef_trimmed split: if_splits)
qed

lemma nodeFragments_trimmed: "f \<in> set (nodeFragments e p w n s) \<Longrightarrow> f \<noteq> [] \<Longrightarrow> trimmed f"
  by (cases "(e, p, w, n, s)" rule: nodeFragments.cases)
    (auto simp: imageRefs_trimmed TrimSpace_trimmed split: option.splits)

lemma fragments_trimmed: "f \<in> set (fragments e p w n ss) \<Longrightarrow> f \<noteq> [] \<Longrightarrow> trimmed f"
  by (induction ss arbitrary: n) (auto simp: nodeFragments_trimmed)

lemma body_is_joined_fragments:
  assumes "[] \<notin> set (fragments e p w n ss)"
  shows "strings_TrimSpace (concat (map (\<lambda>f. f @ [LF, LF]) (fragments e p w n ss))) =
         strings_Join (fragments e p w n ss) [LF, LF]"
proof (cases "fragments e p w n ss = []")
  case True
  then show ?thesis by (simp add: TrimSpace_Nil)
next
  case False
  have "list_all trimmed (fragments e p w n ss)"
    using assms fragments_trimmed [of _ e p w n ss] by (auto simp: list_all_iff)
  with False show ?thesis by (rule TrimSpace_fragments)
qed

lemma logPrintf_frame:
  "files (logPrintf l w) = files w \<and> dirs (logPrintf l w) = dirs w \<and>
   uuidCalls (logPrintf l w) = uuidCalls w"
  by (simp add: logPrintf_def)

lemma walkFn_extraction_failed:
  assumes "fst (processEntryHTML e (logPrintf (LogProcessingEntry (path v)) w) (path v)) = Inl err"
  shows "files (fst (walkFn e out (w, n) v)) = files w \<and>
         dirs (fst (walkFn e out (w, n) v)) = dirs w \<and>
         snd (walkFn e out (w, n) v) = n"
proof -
  obtain r w1 where r: "processEntryHTML e (logPrintf (LogProcessingEntry (path v)) w) (path v) = (r, w1)"
    by (cases "processEntryHTML e (logPrintf (LogProcessingEntry (path v)) w) (path v)")
  with assms have "r = Inl err" by simp
  moreover have "files w1 = files w" "dirs w1 = dirs w"
    using processEntryHTML_frame [of e "logPrintf (LogProcessingEntry (path v)) w" "path v"] r
    by (simp_all add: logPrintf_frame)
  ultimately show ?thesis
    using r by (simp add: walkFn_def Let_def logPrintf_frame)
qed

text \<open>
  Claim C10. An image of an asset grid whose \<^verbatim>\<open>img\<close> element has no \<^verbatim>\<open>src\<close> attribute
  is skipped silently: the state of the extraction (the \<open>Media\<close> map, the builder,
  the log, the identifiers generated) is left as it was, and the entry is extracted
  as if the image were not in the document.
\<close>

theorem image_without_src_is_skipped:
  "processImage e p x None = x \<and>
   processNode e p x (AssetGrid (a @ None # b)) = processNode e p x (AssetGrid (a @ b)) \<and>
   extractEntry e w p (doc\<lparr>children := pre @ AssetGrid (a @ None # b) # post\<rparr>) =
   extractEntry e w p (doc\<lparr>children := pre @ AssetGrid (a @ b) # post\<rparr>)"
  by (simp add: processImage_None processNode_def extractEntry_def Let_def extractTitle_def
      assemble_skip split: prod.splits option.splits)

text \<open>
  Claim C4. Extraction fails with the empty-entry error exactly when the date was
  read and, after the loop over the children, the Markdown text (heading included)
  is empty and the \<open>Media\<close> map has no pair. An entry that is returned has a
  non-empty text or a media reference. When the extraction of a visited document
  fails, with this error or another, the driver writes no file, creates no
  directory and leaves its count as it was.
\<close>

theorem empty_entry_rejected:
  "(fst (extractEntry e w p doc) = Inl (EmptyEntryError p)) =
     (let dateStr = strings_TrimSpace (pageHeader doc);
          r = parseAppleDate (timeParse e) dateStr;
          x = assemble e p (startExtraction (fst r) (extractTitle doc p) w) (children doc)
      in dateStr \<noteq> [] \<and> snd r = None \<and>
         markdownText (Title (entry x)) (strings_TrimSpace (bodyMarkdownBuilder x)) = [] \<and>
         Media (entry x) = []) \<and>
   (\<forall>ent. fst (extractEntry e w p doc) = Inr ent \<longrightarrow>
      \<not> (MarkdownText ent = [] \<and> Media ent = [])) \<and>
   (fst (processEntryHTML e (logPrintf (LogProcessingEntry (path v)) w) (path v)) = Inl err \<longrightarrow>
      files (fst (walkFn e out (w, n) v)) = files w \<and>
      dirs (fst (walkFn e out (w, n) v)) = dirs w \<and>
      snd (walkFn e out (w, n) v) = n)"
proof (intro conjI allI impI)
  assume "fst (processEntryHTML e (logPrintf (LogProcessingEntry (path v)) w) (path v)) = Inl err"
  from walkFn_extraction_failed [OF this]
  show "files (fst (walkFn e out (w, n) v)) = files w"
    and "dirs (fst (walkFn e out (w, n) v)) = dirs w"
    and "snd (walkFn e out (w, n) v) = n"
    by simp_all
qed (auto simp add: extractEntry_def Let_def finishEntry_def
      split: prod.splits option.splits if_splits)

theorem empty_entry_rejected_witness:
  "fst (extractEntry exampleEnv exampleWorld ''/tmp/x/Entries/walk.html'' exampleDoc) =
     Inr exampleEntry \<and>
   \<not> (MarkdownText exampleEntry = [] \<and> Media exampleEntry = []) \<and>
   fst (extractEntry exampleEnv exampleWorld ''/tmp/x/Entries/blank.html'' blankDoc) =
     Inl (EmptyEntryError ''/tmp/x/Entries/blank.html'') \<and>
   fst (processEntryHTML exampleEnv
          (logPrintf (LogProcessingEntry (path (entryVisit ''blank.html''))) exampleWorld)
          (path (entryVisit ''blank.html''))) =
     Inl (EmptyEntryError ''/tmp/x/Entries/blank.html'') \<and>
   files (fst (walkFn exampleEnv ''/out'' (exampleWorld, 0) (entryVisit ''blank.html''))) =
     files exampleWorld \<and>
   snd (walkFn exampleEnv ''/out'' (exampleWorld, 0) (entryVisit ''blank.html'')) = 0"
proof -
  have h: "fst (extractEntry exampleEnv exampleWorld ''/tmp/x/Entries/walk.html'' exampleDoc) =
     Inr exampleEntry"
    by code_simp
  have b: "fst (extractEntry exampleEnv exampleWorld ''/tmp/x/Entries/blank.html'' blankDoc) =
     Inl (EmptyEntryError ''/tmp/x/Entries/blank.html'')"
    by code_simp
  have x: "fst (processEntryHTML exampleEnv
          (logPrintf (LogProcessingEntry (path (entryVisit ''blank.html''))) exampleWorld)
          (path (entryVisit ''blank.html''))) =
     Inl (EmptyEntryError ''/tmp/x/Entries/blank.html'')"
    by code_simp
  note th = empty_entry_rejected
    [of exampleEnv exampleWorld "''/tmp/x/Entries/walk.html''" exampleDoc
      "entryVisit ''blank.html''" "EmptyEntryError ''/tmp/x/Entries/blank.html''" "''/out''" 0]
  from th have "\<forall>ent. fst (extractEntry exampleEnv exampleWorld ''/tmp/x/Entries/walk.html'' exampleDoc) =
      Inr ent \<longrightarrow> \<not> (MarkdownText ent = [] \<and> Media ent = [])"
    by blast
  with h have n: "\<not> (MarkdownText exampleEntry = [] \<and> Media exampleEntry = [])"
    by blast
  from th x have
    "files (fst (walkFn exampleEnv ''/out'' (exampleWorld, 0) (entryVisit ''blank.html''))) =
       files exampleWorld \<and>
     snd (walkFn exampleEnv ''/out'' (exampleWorld, 0) (entryVisit ''blank.html'')) = 0"
    by blast
  with h b x n show ?thesis by blast
qed

text \<open>
  Claim C2. The assembler goes through the children of the page container in
  document order and appends to the builder, for each child in turn, the fragments
  of that child, each followed by a blank line: the builder holds the fragments of
  the specification in the order of the nodes, the fragments of a list of nodes
  followed by more nodes are those of the first list followed by those of the
  rest, and the text of an extracted entry is the trimmed builder under the title
  heading. When no fragment is empty, the trimmed builder is the fragments with one
  blank line between them.
\<close>

theorem assembler_keeps_document_order:
  "bodyMarkdownBuilder (assemble e p (startExtraction t title w) nodes) =
     concat (map (\<lambda>f. f @ [LF, LF]) (fragments e p w (uuidCalls w) nodes)) \<and>
   fragments e p w n (ns @ ms) =
     fragments e p w n ns @ fragments e p w (n + sum_list (map uuidsUsed ns)) ms \<and>
   (\<forall>ent. fst (extractEntry e w p doc) = Inr ent \<longrightarrow>
      MarkdownText ent =
        markdownText (Title ent)
          (strings_TrimSpace
            (concat (map (\<lambda>f. f @ [LF, LF]) (fragments e p w (uuidCalls w) (children doc)))))) \<and>
   ([] \<notin> set (fragments e p w n nodes) \<longrightarrow>
      strings_TrimSpace (concat (map (\<lambda>f. f @ [LF, LF]) (fragments e p w n nodes))) =
      strings_Join (fragments e p w n nodes) [LF, LF])"
proof (intro conjI allI impI)
  assume "[] \<notin> set (fragments e p w n nodes)"
  then show "strings_TrimSpace (concat (map (\<lambda>f. f @ [LF, LF]) (fragments e p w n nodes))) =
      strings_Join (fragments e p w n nodes) [LF, LF]"
    by (rule body_is_joined_fragments)
next
  show "bodyMarkdownBuilder (assemble e p (startExtraction t title w) nodes) =
     concat (map (\<lambda>f. f @ [LF, LF]) (fragments e p w (uuidCalls w) nodes))"
    by (simp add: assemble_builder) (simp add: startExtraction_def)
next
  show "fragments e p w n (ns @ ms) =
     fragments e p w n ns @ fragments e p w (n + sum_list (map uuidsUsed ns)) ms"
    by (rule fragments_append)
next
  fix ent
  assume r: "fst (extractEntry e w p doc) = Inr ent"
  then obtain t where
    ent: "finishEntry p (assemble e p (startExtraction t (extractTitle doc p) w) (children doc)) = Inr ent"
    by (auto simp: extractEntry_def Let_def split: if_splits prod.splits option.splits)
  let ?x = "assemble e p (startExtraction t (extractTitle doc p) w) (children doc)"
  have b: "bodyMarkdownBuilder ?x =
      concat (map (\<lambda>f. f @ [LF, LF]) (fragments e p w (uuidCalls w) (children doc)))"
    by (simp add: assemble_builder) (simp add: startExtraction_def)
  from ent have "ent = (entry ?x)\<lparr>MarkdownText :=
      markdownText (Title (entry ?x)) (strings_TrimSpace (bodyMarkdownBuilder ?x))\<rparr>"
    by (auto simp: finishEntry_def Let_def split: if_splits)
  then show "MarkdownText ent =
        markdownText (Title ent)
          (strings_TrimSpace
            (concat (map (\<lambda>f. f @ [LF, LF]) (fragments e p w (uuidCalls w) (children doc)))))"
    by (simp add: b)
qed

theorem assembler_keeps_document_order_witness:
  "fst (extractEntry exampleEnv exampleWorld ''/tmp/x/Entries/walk.html'' exampleDoc) =
     Inr exampleEntry \<and>
   fragments exampleEnv ''/tmp/x/Entries/walk.html'' exampleWorld 0 (children exampleDoc) =
     [''A walk.'', imageRef ''00000000-0000-4000-8000-000000000000-photo.jpg''] \<and>
   MarkdownText exampleEntry =
     markdownText ''Morning Walk''
       (strings_TrimSpace (concat (map (\<lambda>f. f @ [LF, LF])
          [''A walk.'', imageRef ''00000000-0000-4000-8000-000000000000-photo.jpg'']))) \<and>
   strings_TrimSpace (concat (map (\<lambda>f. f @ [LF, LF])
          [''A walk.'', imageRef ''00000000-0000-4000-8000-000000000000-photo.jpg''])) =
     strings_Join [''A walk.'', imageRef ''00000000-0000-4000-8000-000000000000-photo.jpg'']
       [LF, LF]"
proof -
  have h: "fst (extractEntry exampleEnv exampleWorld ''/tmp/x/Entries/walk.html'' exampleDoc) =
     Inr exampleEntry"
    by code_simp
  have f: "fragments exampleEnv ''/tmp/x/Entries/walk.html'' exampleWorld 0 (children exampleDoc) =
     [''A walk.'', imageRef ''00000000-0000-4000-8000-000000000000-photo.jpg'']"
    by code_simp
  have u: "uuidCalls exampleWorld = 0" "Title exampleEntry = ''Morning Walk''"
    by (simp_all add: exampleWorld_def exampleEntry_def)
  have ne: "[] \<notin> set (fragments exampleEnv ''/tmp/x/Entries/walk.html'' exampleWorld 0
      (children exampleDoc))"
    by (simp add: f imageRef_def)
  note th = assembler_keeps_document_order
    [where e = exampleEnv and p = "''/tmp/x/Entries/walk.html''" and w = exampleWorld
      and doc = exampleDoc and n = 0 and nodes = "children exampleDoc"]
  from th have "\<forall>ent. fst (extractEntry exampleEnv exampleWorld ''/tmp/x/Entries/walk.html'' exampleDoc) =
      Inr ent \<longrightarrow>
      MarkdownText ent =
        markdownText (Title ent)
          (strings_TrimSpace
            (concat (map (\<lambda>f. f @ [LF, LF])
               (fragments exampleEnv ''/tmp/x/Entries/walk.html'' exampleWorld
                  (uuidCalls exampleWorld) (children exampleDoc)))))"
    by blast
  with h have m: "MarkdownText exampleEntry =
        markdownText (Title exampleEntry)
          (strings_TrimSpace
            (concat (map (\<lambda>f. f @ [LF, LF])
               (fragments exampleEnv ''/tmp/x/Entries/walk.html'' exampleWorld
                  (uuidCalls exampleWorld) (children exampleDoc)))))"
    by blast
  from th ne have j: "strings_TrimSpace (concat (map (\<lambda>f. f @ [LF, LF])
      (fragments exampleEnv ''/tmp/x/Entries/walk.html'' exampleWorld 0 (children exampleDoc)))) =
      strings_Join (fragments exampleEnv ''/tmp/x/Entries/walk.html'' exampleWorld 0
        (children exampleDoc)) [LF, LF]"
    by blast
  from h f u m j show ?thesis by simp
qed

section \<open>Properties of decimal digits\<close>

lemma char_of_48: "char_of (48 :: nat) = CHR ''0''"
  by code_simp

lemma natDigits_1: "n < 10 \<Longrightarrow> natDigits n = [char_of (48 + n)]"
  by (simp add: natDigits.simps)

lemma natDigits_2: "10 \<le> n \<Longrightarrow> n < 100 \<Longrightarrow> natDigits n = [char_of (48 + n div 10), char_of (48 + n mod 10)]"
  by (subst natDigits.simps) (simp add: natDigits_1)

lemma natDigits_3: "100 \<le> n \<Longrightarrow> n < 1000 \<Longrightarrow>
   natDigits n = [char_of (48 + n div 100), char_of (48 + n div 10 mod 10), char_of (48 + n mod 10)]"
  by (subst natDigits.simps) (simp add: natDigits_2 div_mult2_eq[symmetric])

lemma natDigits_4: "1000 \<le> n \<Longrightarrow> n < 10000 \<Longrightarrow>
   natDigits n = [char_of (48 + n div 1000), char_of (48 + n div 100 mod 10),
                  char_of (48 + n div 10 mod 10), char_of (48 + n mod 10)]"
  by (subst natDigits.simps) (simp add: natDigits_3 div_mult2_eq[symmetric])

lemma appendInt_2:
  "n < 100 \<Longrightarrow> appendInt (int n) 2 = [char_of (48 + n div 10), char_of (48 + n mod 10)]"
  by (cases "n < 10") (simp_all add: appendInt_def natDigits_1 natDigits_2 char_of_48)

lemma appendInt_4:
  assumes "n < 10000"
  shows "appendInt (int n) 4 =
     [char_of (48 + n div 1000), char_of (48 + n div 100 mod 10),
      char_of (48 + n div 10 mod 10), char_of (48 + n mod 10)]"
proof -
  consider "n < 10" | "10 \<le> n" "n < 100" | "100 \<le> n" "n < 1000" | "1000 \<le> n" "n < 10000"
    using assms by linarith
  then show ?thesis
    by cases
      (simp_all add: appendInt_def natDigits_1 natDigits_2 natDigits_3 natDigits_4 char_of_48
        numeral_3_eq_3 numeral_2_eq_2)
qed

section \<open>Properties of the date parser\<close>

lemma HasPrefix_single: "strings_HasPrefix (x # xs) [c] = (x = c)"
  by (auto simp: strings_HasPrefix_def)

lemma strings_Index_first:
  "c \<notin> set w \<Longrightarrow> strings_Index (w @ c # rest) [c] = Some (length w)"
  by (induction w) (auto simp: HasPrefix_single)

lemma strings_Index_none: "c \<notin> set s \<Longrightarrow> strings_Index s [c] = None"
  by (induction s) (auto simp: HasPrefix_single)

lemma strings_Index_char:
  "strings_Index s [c] = (if c \<in> set s then Some (length (takeWhile (\<lambda>x. x \<noteq> c) s)) else None)"
  by (induction s) (auto simp: HasPrefix_single)

lemma strings_Contains_char: "strings_Contains s [c] = (c \<in> set s)"
  by (simp add: strings_Contains_def strings_Index_char)

lemma strings_ReplaceAll_char:
  "strings_ReplaceAll s [c] [d] = map (\<lambda>x. if x = c then d else x) s"
proof (induction s)
  case Nil
  then show ?case by (simp add: strings_ReplaceAll.simps)
next
  case (Cons x xs)
  then show ?case
    by (subst strings_ReplaceAll.simps) (simp add: HasPrefix_single)
qed

lemma SplitN2_first:
  "c \<notin> set a \<Longrightarrow> strings_SplitN2 (a @ c # b) [c] = [a, b]"
  by (simp add: strings_SplitN2_def strings_Index_first)

lemma SplitN2_none: "c \<notin> set s \<Longrightarrow> strings_SplitN2 s [c] = [s]"
  by (simp add: strings_SplitN2_def strings_Index_none)

lemma tryLayouts_two:
  "tryLayouts parse layouts d None =
     (case parse ''January 2, 2006'' d of
        Inr t \<Rightarrow> Inr (time_Date (Year t) (Month t) (Day t) 12 0 0 0 UTC)
      | Inl e1 \<Rightarrow>
          (case parse ''Jan 2, 2006'' d of
             Inr t \<Rightarrow> Inr (time_Date (Year t) (Month t) (Day t) 12 0 0 0 UTC)
           | Inl e2 \<Rightarrow> Inl (Some e2)))"
  by (simp add: layouts_def split: sum.splits)

lemma parseAppleDate_header:
  "CHR '','' \<notin> set weekday \<Longrightarrow>
   parseAppleDate parse (weekday @ CHR '','' # rest) =
     (case tryLayouts parse layouts (strings_TrimSpace rest) None of
            Inr t \<Rightarrow> (t, None)
          | Inl err \<Rightarrow> (zeroTime, Some (DateParseError (strings_TrimSpace rest) err)))"
  by (simp add: parseAppleDate_def SplitN2_first Let_def split: sum.splits)

subsection \<open>Reading the text of a date\<close>

lemma months: "1 \<le> m \<Longrightarrow> m \<le> 12 \<Longrightarrow> m \<in> {1, 2, 3, 4, 5, 6, 7, 8, 9, 10, 11, 12 :: nat}"
  by (simp del: One_nat_def) arith

lemma lookup_long:
  assumes "1 \<le> m" "m \<le> 12"
  shows "lookup longMonthNames 0 (longMonthNames ! (m - 1) @ CHR '' '' # r) = Some (m - 1, CHR '' '' # r)"
  using months [OF assms]
  by (elim insertE emptyE) (simp_all add: longMonthNames_def matchChar_def lowerBit_def)

lemma lookup_short:
  assumes "1 \<le> m" "m \<le> 12"
  shows "lookup shortMonthNames 0 (shortMonthNames ! (m - 1) @ CHR '' '' # r) = Some (m - 1, CHR '' '' # r)"
  using months [OF assms]
  by (elim insertE emptyE) (simp_all add: shortMonthNames_def matchChar_def lowerBit_def)

lemma lookup_short_long:
  assumes "1 \<le> m" "m \<le> 12"
  shows "lookup longMonthNames 0 (shortMonthNames ! (m - 1) @ CHR '' '' # r) =
           (if m = 5 then Some (4, CHR '' '' # r) else None)"
  using months [OF assms]
  by (elim insertE emptyE)
    (simp_all add: shortMonthNames_def longMonthNames_def matchChar_def lowerBit_def)

lemma isDigit_digit: "k < 10 \<Longrightarrow> isDigit (char_of (48 + k :: nat))"
  by (simp add: isDigit_def)

lemma digitVal_digit: "k < 10 \<Longrightarrow> digitVal (char_of (48 + k :: nat)) = k"
  by (simp add: digitVal_def)

lemma digit_not_space: "k < 10 \<Longrightarrow> char_of (48 + k :: nat) \<noteq> CHR '' ''"
proof
  assume k: "k < 10" and "char_of (48 + k) = CHR '' ''"
  then have "of_char (char_of (48 + k) :: char) = (of_char (CHR '' '') :: nat)" by simp
  with k show False by simp
qed

lemma getnum_day:
  assumes "1 \<le> d" "d < 100"
  shows "getnum (natDigits d @ CHR '','' # r) = Some (d, CHR '','' # r)"
proof (cases "d < 10")
  case True
  then show ?thesis
    by (simp add: natDigits_1 getnum_def isDigit_digit digitVal_digit) (simp add: isDigit_def)
next
  case False
  with assms have "d div 10 < 10" "d mod 10 < 10" by auto
  with False assms show ?thesis
    by (simp add: natDigits_2 getnum_def isDigit_digit digitVal_digit)
qed

lemma getyear_year:
  assumes "y \<le> 9999"
  shows "getyear (appendInt (int y) 4) = Some (int y, [])"
proof -
  from assms have y: "y < 10000" by simp
  have d: "y div 1000 < 10" "y div 100 mod 10 < 10" "y div 10 mod 10 < 10" "y mod 10 < 10"
    using y by auto
  have a: "y div 10 div 10 = y div 100" "y div 100 div 10 = y div 1000"
    by (simp_all add: div_mult2_eq [symmetric])
  have "((y div 1000 * 10 + y div 100 mod 10) * 10 + y div 10 mod 10) * 10 + y mod 10 = y"
    using div_mult_mod_eq [of y 10] div_mult_mod_eq [of "y div 10" 10]
      div_mult_mod_eq [of "y div 100" 10]
    by (simp only: a)
  with d show ?thesis
    by (simp add: appendInt_4 [OF y] getyear_def isDigit_digit digitVal_digit)
qed

lemma natDigits_hd:
  assumes "d < 100"
  shows "\<exists>(k :: nat) r. k < 10 \<and> natDigits d = char_of (48 + k) # r"
proof (cases "d < 10")
  case True
  then show ?thesis by (auto simp: natDigits_1)
next
  case False
  with assms have "d div 10 < 10" by auto
  with False assms show ?thesis by (auto simp: natDigits_2)
qed

lemma skip_space:
  assumes "d < 100"
  shows "skip (CHR '' '' # natDigits d @ r) '' '' = Some (natDigits d @ r)"
proof -
  from natDigits_hd [OF assms] obtain k :: nat and ds where "k < 10" "natDigits d = char_of (48 + k) # ds"
    by blast
  then show ?thesis
    by (simp add: cutspace_def digit_not_space)
qed

lemma skip_comma:
  assumes "y < 10000"
  shows "skip (CHR '','' # CHR '' '' # appendInt (int y) 4 @ r) '', '' = Some (appendInt (int y) 4 @ r)"
proof -
  from assms have "y div 1000 < 10" by auto
  then show ?thesis
    by (simp add: appendInt_4 [OF assms] cutspace_def digit_not_space)
qed

lemma month_initial:
  assumes "1 \<le> m" "m \<le> 12" "names = longMonthNames \<or> names = shortMonthNames"
  shows "\<exists>c s. names ! (m - 1) = c # s \<and> 33 \<le> (of_char c :: nat) \<and> (of_char c :: nat) < 128"
  using months [OF assms(1,2)] assms(3)
  by (elim insertE emptyE disjE) (simp_all add: shortMonthNames_def longMonthNames_def)

lemma dateText_trimmed:
  assumes "1 \<le> m" "m \<le> 12" "names = longMonthNames \<or> names = shortMonthNames" "y \<le> 9999"
  shows "leadingSpace (dateText names y m d) = None \<and> trailingSpace (dateText names y m d) = None"
proof -
  from month_initial [OF assms(1-3)] obtain c s where
    c: "names ! (m - 1) = c # s" "33 \<le> (of_char c :: nat)" "(of_char c :: nat) < 128"
    by blast
  from assms(4) have y: "y < 10000" by simp
  have l: "33 \<le> (of_char (char_of (48 + y mod 10) :: char) :: nat)"
    "(of_char (char_of (48 + y mod 10) :: char) :: nat) < 128"
    by simp_all
  have "leadingSpace (dateText names y m d) = None"
    using c by (simp add: dateText_def leadingSpace_graphic)
  moreover have e: "dateText names y m d =
      (names ! (m - 1) @ '' '' @ natDigits d @ '', '' @
        [char_of (48 + y div 1000), char_of (48 + y div 100 mod 10),
         char_of (48 + y div 10 mod 10)]) @ [char_of (48 + y mod 10)]"
    by (simp add: dateText_def appendInt_4 [OF y])
  have "trailingSpace (dateText names y m d) = None"
    unfolding e by (rule trailingSpace_graphic [OF l])
  ultimately show ?thesis ..
qed

lemma daysIn_calendar: "daysIn m (int y) = calendarDays m y"
proof -
  have "(int y mod 4 = 0) = (y mod 4 = 0)" "(int y mod 100 = 0) = (y mod 100 = 0)"
    "(int y mod 400 = 0) = (y mod 400 = 0)"
    by presburger+
  then show ?thesis
    by (simp add: daysIn_def calendarDays_def isLeap_def)
qed

lemma calendarDays_le: "calendarDays m y \<le> 31"
  by (simp add: calendarDays_def)

lemma parseMonthDayYear_dateText:
  assumes l: "lookup names 0 (mn @ CHR '' '' # natDigits d @ '', '' @ appendInt (int y) 4) =
           Some (i, CHR '' '' # natDigits d @ '', '' @ appendInt (int y) 4)"
    and v: "validDate y (Suc i) d"
  shows "parseMonthDayYear names layout (mn @ '' '' @ natDigits d @ '', '' @ appendInt (int y) 4) =
           Inr (time_Date (int y) (Suc i) d 0 0 0 0 UTC)"
proof -
  from v calendarDays_le [of "Suc i" y] have d: "1 \<le> d" "d < 100" "d \<le> calendarDays (Suc i) y"
    and y: "y < 10000" "y \<le> 9999"
    by (auto simp: validDate_def)
  have s1: "skip (CHR '' '' # natDigits d @ '', '' @ appendInt (int y) 4) '' '' =
      Some (natDigits d @ '', '' @ appendInt (int y) 4)"
    by (rule skip_space [OF d(2)])
  have g: "getnum (natDigits d @ '', '' @ appendInt (int y) 4) =
      Some (d, '', '' @ appendInt (int y) 4)"
    using getnum_day [OF d(1,2)] by simp
  have s2: "skip ('', '' @ appendInt (int y) 4) '', '' = Some (appendInt (int y) 4)"
    using skip_comma [OF y(1), of "[]"] by simp
  show ?thesis
    using d l s1 g s2
    by (simp add: parseMonthDayYear_def getyear_year [OF y(2)] daysIn_calendar time_Date_def
        del: skip.simps)
qed

lemma time_Parse_dateText:
  assumes n: "names = longMonthNames \<or> names = shortMonthNames"
    and v: "validDate y m d"
  shows "tryLayouts time_Parse layouts (dateText names y m d) None =
           Inr (time_Date (int y) m d 12 0 0 0 UTC)"
proof -
  from v have m: "1 \<le> m" "m \<le> 12" and s: "Suc (m - 1) = m"
    by (auto simp: validDate_def)
  let ?r = "natDigits d @ '', '' @ appendInt (int y) 4"
  let ?t = "time_Date (int y) m d 0 0 0 0 UTC"
  have long: "parseMonthDayYear longMonthNames l (longMonthNames ! (m - 1) @ '' '' @ ?r) = Inr ?t"
    for l
    using parseMonthDayYear_dateText [of longMonthNames "longMonthNames ! (m - 1)" d y "m - 1" l]
      lookup_long [OF m, of ?r] v s
    by simp
  have short: "parseMonthDayYear shortMonthNames l (shortMonthNames ! (m - 1) @ '' '' @ ?r) = Inr ?t"
    for l
    using parseMonthDayYear_dateText [of shortMonthNames "shortMonthNames ! (m - 1)" d y "m - 1" l]
      lookup_short [OF m, of ?r] v s
    by simp
  have may: "parseMonthDayYear longMonthNames l (shortMonthNames ! (m - 1) @ '' '' @ ?r) = Inr ?t"
    if "m = 5" for l
    using parseMonthDayYear_dateText [of longMonthNames "shortMonthNames ! (m - 1)" d y "m - 1" l]
      lookup_short_long [OF m, of ?r] v s that
    by simp
  have other: "isl (parseMonthDayYear longMonthNames l (shortMonthNames ! (m - 1) @ '' '' @ ?r))"
    if "m \<noteq> 5" for l
    using lookup_short_long [OF m, of ?r] that
    by (simp add: parseMonthDayYear_def)
  from n show ?thesis
  proof
    assume "names = longMonthNames"
    then show ?thesis
      using long [of "''January 2, 2006''"]
      by (simp add: tryLayouts_two time_Parse_def dateText_def time_Date_def)
  next
    assume sh: "names = shortMonthNames"
    show ?thesis
    proof (cases "m = 5")
      case True
      then show ?thesis
        using may [of "''January 2, 2006''"] sh
        by (simp add: tryLayouts_two time_Parse_def dateText_def time_Date_def)
    next
      case False
      then show ?thesis
        using other [of "''January 2, 2006''"] short [of "''Jan 2, 2006''"] sh
        by (auto simp: tryLayouts_two time_Parse_def dateText_def time_Date_def isl_def)
    qed
  qed
qed

text \<open>
  Claim C5. For every header \<^verbatim>\<open>Weekday, Month D, YYYY\<close> (\<open>headerText\<close>) with a weekday text
  without a comma, a month name of either table and a date of the calendar,
  \<^verbatim>\<open>parseAppleDate\<close> with \<^verbatim>\<open>time.Parse\<close> returns no error and the time whose year, month
  and day are those written in the header, at 12:00:00 UTC. The result is the same
  for every other weekday text without a comma, whatever follows the comma and
  whatever function stands for \<^verbatim>\<open>time.Parse\<close>.
\<close>

theorem parseAppleDate_weekday_header:
  assumes "CHR '','' \<notin> set weekday"
    and "names = longMonthNames \<or> names = shortMonthNames"
    and "validDate y m d"
  shows "parseAppleDate time_Parse (headerText weekday names y m d) =
           (\<lparr>Year = int y, Month = m, Day = d, Hour = 12, Minute = 0,
             Second = 0, Nanosecond = 0, Location = UTC\<rparr>, None) \<and>
         (\<forall>weekday' rest. CHR '','' \<notin> set weekday' \<longrightarrow>
            parseAppleDate parse (weekday' @ '','' @ rest) =
            parseAppleDate parse (weekday @ '','' @ rest))"
proof
  from assms(3) have m: "1 \<le> m" "m \<le> 12" "y \<le> 9999"
    by (auto simp: validDate_def)
  from dateText_trimmed [OF m(1,2) assms(2) m(3), of d]
  have "strings_TrimSpace (CHR '' '' # dateText names y m d) = dateText names y m d"
    by (simp add: TrimSpace_after_space)
  then show "parseAppleDate time_Parse (headerText weekday names y m d) =
           (\<lparr>Year = int y, Month = m, Day = d, Hour = 12, Minute = 0,
             Second = 0, Nanosecond = 0, Location = UTC\<rparr>, None)"
    using parseAppleDate_header [OF assms(1), of time_Parse "CHR '' '' # dateText names y m d"]
      time_Parse_dateText [OF assms(2,3)]
    by (simp add: headerText_def time_Date_def)
next
  show "\<forall>weekday' rest. CHR '','' \<notin> set weekday' \<longrightarrow>
            parseAppleDate parse (weekday' @ '','' @ rest) =
            parseAppleDate parse (weekday @ '','' @ rest)"
    using assms(1) by (simp add: parseAppleDate_header)
qed

theorem parseAppleDate_weekday_header_witness:
  "parseAppleDate time_Parse ''Tuesday, December 12, 2023'' =
     (\<lparr>Year = 2023, Month = 12, Day = 12, Hour = 12, Minute = 0,
       Second = 0, Nanosecond = 0, Location = UTC\<rparr>, None) \<and>
   parseAppleDate time_Parse ''Wed, May 14, 2025'' =
     (\<lparr>Year = 2025, Month = 5, Day = 14, Hour = 12, Minute = 0,
       Second = 0, Nanosecond = 0, Location = UTC\<rparr>, None) \<and>
   parseAppleDate time_Parse ''Thu, Feb 29, 2024'' =
     (\<lparr>Year = 2024, Month = 2, Day = 29, Hour = 12, Minute = 0,
       Second = 0, Nanosecond = 0, Location = UTC\<rparr>, None) \<and>
   parseAppleDate time_Parse ''Mardi, December 12, 2023'' =
   parseAppleDate time_Parse ''Tuesday, December 12, 2023''"
proof -
  have c: "CHR '','' \<notin> set ''Tuesday''" "CHR '','' \<notin> set ''Wed''" "CHR '','' \<notin> set ''Thu''"
    "CHR '','' \<notin> set ''Mardi''"
    by simp_all
  have v: "validDate 2023 12 12" "validDate 2025 5 14" "validDate 2024 2 29"
    by (simp_all add: validDate_def calendarDays_def)
  have h: "headerText ''Tuesday'' longMonthNames 2023 12 12 = ''Tuesday, December 12, 2023''"
    "headerText ''Wed'' shortMonthNames 2025 5 14 = ''Wed, May 14, 2025''"
    "headerText ''Thu'' shortMonthNames 2024 2 29 = ''Thu, Feb 29, 2024''"
    by code_simp+
  note a = parseAppleDate_weekday_header
    [of "''Tuesday''" longMonthNames 2023 12 12 time_Parse, OF c(1) disjI1 v(1), OF refl,
      unfolded h]
  note b = parseAppleDate_weekday_header
    [of "''Wed''" shortMonthNames 2025 5 14 time_Parse, OF c(2) disjI2 v(2), OF refl,
      unfolded h, THEN conjunct1]
  note d = parseAppleDate_weekday_header
    [of "''Thu''" shortMonthNames 2024 2 29 time_Parse, OF c(3) disjI2 v(3), OF refl,
      unfolded h, THEN conjunct1]
  from a [THEN conjunct2, rule_format, of "''Mardi''" "'' December 12, 2023''", OF c(4)]
  have e: "parseAppleDate time_Parse ''Mardi, December 12, 2023'' =
           parseAppleDate time_Parse ''Tuesday, December 12, 2023''"
    by simp
  from a [THEN conjunct1] b d e show ?thesis
    by simp
qed

lemma noon_not_zeroTime: "time_Date y m d 12 mi sec ns loc \<noteq> zeroTime"
  by (simp add: zeroTime_def time_Date_def)

lemma parseAppleDate_tried:
  "parseAppleDate parse s =
     (let d = (case strings_Index s '','' of
                 None \<Rightarrow> s
               | Some i \<Rightarrow> strings_TrimSpace (drop (Suc i) s))
      in case tryLayouts parse layouts d None of
           Inr t \<Rightarrow> (t, None)
         | Inl err \<Rightarrow> (zeroTime, Some (DateParseError d err)))"
  by (simp add: parseAppleDate_def strings_SplitN2_def Let_def split: option.splits sum.splits)

lemma lookup_index:
  "lookup tab i v = Some (j, r) \<Longrightarrow> i \<le> j \<and> j < i + length tab"
proof (induction tab arbitrary: i)
  case Nil
  then show ?case by simp
next
  case (Cons a tab)
  show ?case
  proof (cases "length a \<le> length v \<and> list_all2 matchChar (take (length a) v) a")
    case True
    with Cons.prems show ?thesis by simp
  next
    case False
    with Cons.prems have "lookup tab (Suc i) v = Some (j, r)" by auto
    from Cons.IH [OF this] show ?thesis by simp
  qed
qed

lemma digitVal_le: "isDigit c \<Longrightarrow> digitVal c \<le> 9"
  by (auto simp: isDigit_def digitVal_def)

lemma getyear_range:
  assumes "getyear v = Some (y, r)"
  shows "0 \<le> y \<and> y \<le> 9999"
proof -
  from assms have l: "4 \<le> length v" and d: "list_all isDigit (take 4 v)"
    and y: "y = int (foldl (\<lambda>n c. n * 10 + digitVal c) 0 (take 4 v))"
    by (auto simp: getyear_def split: if_splits)
  from l obtain a b c e t where v: "v = a # b # c # e # t"
    by (cases v; cases "tl v"; cases "tl (tl v)"; cases "tl (tl (tl v))") auto
  with d have "digitVal a \<le> 9" "digitVal b \<le> 9" "digitVal c \<le> 9" "digitVal e \<le> 9"
    by (simp_all add: digitVal_le)
  with y v show ?thesis by simp
qed

lemma time_Parse_valid:
  assumes "time_Parse layout v = Inr t"
  shows "0 \<le> Year t \<and> validDate (nat (Year t)) (Month t) (Day t)"
proof -
  from assms obtain names where p: "parseMonthDayYear names layout v = Inr t"
    and n: "length names = 12"
    by (auto simp: time_Parse_def longMonthNames_def shortMonthNames_def split: if_splits)
  note D = parseMonthDayYear_def
  from p obtain i v1 where l: "lookup names 0 v = Some (i, v1)"
    by (cases "lookup names 0 v") (auto simp: D)
  from p l obtain v2 where s1: "skip v1 '' '' = Some v2"
    by (cases "skip v1 '' ''") (auto simp: D simp del: skip.simps)
  from p l s1 obtain day v3 where g: "getnum v2 = Some (day, v3)"
    by (cases "getnum v2") (auto simp: D simp del: skip.simps)
  from p l s1 g obtain v4 where s2: "skip v3 '', '' = Some v4"
    by (cases "skip v3 '', ''") (auto simp: D simp del: skip.simps)
  from p l s1 g s2 obtain year v5 where y5: "getyear v4 = Some (year, v5)"
    by (cases "getyear v4") (auto simp: D simp del: skip.simps)
  from p l s1 g s2 y5 have r: "v5 = []" "1 \<le> day" "day \<le> daysIn (Suc i) year"
    "t = time_Date year (Suc i) day 0 0 0 0 UTC"
    by (simp_all add: D del: skip.simps split: if_splits)
  note d = r(2,3) and t = r(4)
  from y5 r(1) have y: "getyear v4 = Some (year, [])" by simp
  from getyear_range [OF y] have yr: "0 \<le> year" "year \<le> 9999" by simp_all
  from lookup_index [OF l] n have i: "i < 12" by simp
  from yr have "daysIn (Suc i) year = calendarDays (Suc i) (nat year)"
    using daysIn_calendar [of "Suc i" "nat year"] by simp
  with d yr i t show ?thesis
    by (simp add: validDate_def time_Date_def)
qed

text \<open>
  Claim C6, as the specification states it, fails: the error does not carry the
  original input when the input has a comma. On \<^verbatim>\<open>Monday, Smarch 1, 2023\<close> no layout
  parses (neither the input nor its date part), and the error carries
  \<^verbatim>\<open>Smarch 1, 2023\<close>.
\<close>

theorem date_parse_error_counterexample:
  "isl (time_Parse ''January 2, 2006'' ''Monday, Smarch 1, 2023'') \<and>
   isl (time_Parse ''Jan 2, 2006'' ''Monday, Smarch 1, 2023'') \<and>
   parseAppleDate time_Parse ''Monday, Smarch 1, 2023'' =
     (zeroTime, Some (DateParseError ''Smarch 1, 2023''
                        (Some (ParseError ''Jan 2, 2006'' ''Smarch 1, 2023'')))) \<and>
   ''Smarch 1, 2023'' \<noteq> ''Monday, Smarch 1, 2023''"
  by code_simp

text \<open>
  Claim C6, amended. Let \<open>d\<close> be the string the layouts are tried on: the input when
  it has no comma, otherwise the text after its first comma, trimmed. When every
  layout fails on \<open>d\<close>, \<^verbatim>\<open>parseAppleDate\<close> returns the zero time together with an
  error that carries \<open>d\<close> and wraps the error of the last layout. It returns no
  error exactly when some layout parses \<open>d\<close>; the time is then the year, month and
  day that the first such layout read, at 12:00:00.000000000 UTC, and it is not the
  zero time. With \<^verbatim>\<open>time.Parse\<close> itself, a time returned without an error is a date
  of the calendar.
\<close>

theorem date_parse_error:
  "(let d = (case strings_Index s '','' of
               None \<Rightarrow> s
             | Some i \<Rightarrow> strings_TrimSpace (drop (Suc i) s))
    in ((\<forall>layout \<in> set layouts. isl (parse layout d)) \<longrightarrow>
          parseAppleDate parse s =
            (zeroTime, Some (DateParseError d (Some (projl (parse ''Jan 2, 2006'' d)))))) \<and>
       (snd (parseAppleDate parse s) = None) = (\<exists>layout \<in> set layouts. \<not> isl (parse layout d)) \<and>
       (snd (parseAppleDate parse s) = None \<longrightarrow>
          (let t = (case parse ''January 2, 2006'' d of
                      Inr t1 \<Rightarrow> t1
                    | Inl e \<Rightarrow> projr (parse ''Jan 2, 2006'' d))
           in fst (parseAppleDate parse s) =
                \<lparr>Year = Year t, Month = Month t, Day = Day t, Hour = 12, Minute = 0,
                 Second = 0, Nanosecond = 0, Location = UTC\<rparr>) \<and>
          fst (parseAppleDate parse s) \<noteq> zeroTime) \<and>
       (snd (parseAppleDate time_Parse s) = None \<longrightarrow>
          0 \<le> Year (fst (parseAppleDate time_Parse s)) \<and>
          validDate (nat (Year (fst (parseAppleDate time_Parse s))))
            (Month (fst (parseAppleDate time_Parse s))) (Day (fst (parseAppleDate time_Parse s)))))"
proof -
  define d where "d = (case strings_Index s '','' of
               None \<Rightarrow> s
             | Some i \<Rightarrow> strings_TrimSpace (drop (Suc i) s))"
  have P: "parseAppleDate parse s =
     (case tryLayouts parse layouts d None of
           Inr t \<Rightarrow> (t, None)
         | Inl err \<Rightarrow> (zeroTime, Some (DateParseError d err)))" for parse
    unfolding d_def using parseAppleDate_tried [of parse s] by (simp add: Let_def)
  have L: "set layouts = {''January 2, 2006'', ''Jan 2, 2006''}"
    by (simp add: layouts_def)
  have A: "((\<forall>layout \<in> set layouts. isl (parse layout d)) \<longrightarrow>
          parseAppleDate parse s =
            (zeroTime, Some (DateParseError d (Some (projl (parse ''Jan 2, 2006'' d)))))) \<and>
       (snd (parseAppleDate parse s) = None) = (\<exists>layout \<in> set layouts. \<not> isl (parse layout d)) \<and>
       (snd (parseAppleDate parse s) = None \<longrightarrow>
          (let t = (case parse ''January 2, 2006'' d of
                      Inr t1 \<Rightarrow> t1
                    | Inl e \<Rightarrow> projr (parse ''Jan 2, 2006'' d))
           in fst (parseAppleDate parse s) =
                \<lparr>Year = Year t, Month = Month t, Day = Day t, Hour = 12, Minute = 0,
                 Second = 0, Nanosecond = 0, Location = UTC\<rparr>) \<and>
          fst (parseAppleDate parse s) \<noteq> zeroTime)"
  proof (cases "parse ''January 2, 2006'' d")
    case (Inr t)
    then have "parseAppleDate parse s = (time_Date (Year t) (Month t) (Day t) 12 0 0 0 UTC, None)"
      by (simp add: P tryLayouts_two)
    with Inr show ?thesis
      by (auto simp: L noon_not_zeroTime) (simp add: time_Date_def)
  next
    case e1: (Inl e1)
    show ?thesis
    proof (cases "parse ''Jan 2, 2006'' d")
      case (Inr t)
      with e1 have "parseAppleDate parse s =
          (time_Date (Year t) (Month t) (Day t) 12 0 0 0 UTC, None)"
        by (simp add: P tryLayouts_two)
      with Inr e1 show ?thesis
        by (auto simp: L noon_not_zeroTime) (simp add: time_Date_def)
    next
      case (Inl e2)
      with e1 have "parseAppleDate parse s = (zeroTime, Some (DateParseError d (Some e2)))"
        by (simp add: P tryLayouts_two)
      with Inl e1 show ?thesis
        by (simp add: L)
    qed
  qed
  have B: "0 \<le> Year (fst (parseAppleDate time_Parse s)) \<and>
          validDate (nat (Year (fst (parseAppleDate time_Parse s))))
            (Month (fst (parseAppleDate time_Parse s))) (Day (fst (parseAppleDate time_Parse s)))"
    if n: "snd (parseAppleDate time_Parse s) = None"
  proof (cases "time_Parse ''January 2, 2006'' d")
    case (Inr t)
    then have "parseAppleDate time_Parse s =
        (time_Date (Year t) (Month t) (Day t) 12 0 0 0 UTC, None)"
      by (simp add: P tryLayouts_two)
    with time_Parse_valid [OF Inr] show ?thesis
      by (simp add: time_Date_def)
  next
    case e1: (Inl e1)
    show ?thesis
    proof (cases "time_Parse ''Jan 2, 2006'' d")
      case (Inr t)
      with e1 have "parseAppleDate time_Parse s =
          (time_Date (Year t) (Month t) (Day t) 12 0 0 0 UTC, None)"
        by (simp add: P tryLayouts_two)
      with time_Parse_valid [OF Inr] show ?thesis
        by (simp add: time_Date_def)
    next
      case (Inl e2)
      with e1 n show ?thesis
        by (simp add: P tryLayouts_two)
    qed
  qed
  from A B show ?thesis
    unfolding d_def Let_def by blast
qed

theorem date_parse_error_witness:
  "parseAppleDate time_Parse ''Monday, Smarch 1, 2023'' =
     (zeroTime, Some (DateParseError ''Smarch 1, 2023''
        (Some (projl (time_Parse ''Jan 2, 2006'' ''Smarch 1, 2023''))))) \<and>
   snd (parseAppleDate time_Parse ''Tuesday, December 12, 2023'') = None \<and>
   fst (parseAppleDate time_Parse ''Tuesday, December 12, 2023'') =
     \<lparr>Year = 2023, Month = 12, Day = 12, Hour = 12, Minute = 0,
      Second = 0, Nanosecond = 0, Location = UTC\<rparr> \<and>
   fst (parseAppleDate time_Parse ''Tuesday, December 12, 2023'') \<noteq> zeroTime \<and>
   validDate (nat (Year (fst (parseAppleDate time_Parse ''Tuesday, December 12, 2023''))))
     (Month (fst (parseAppleDate time_Parse ''Tuesday, December 12, 2023'')))
     (Day (fst (parseAppleDate time_Parse ''Tuesday, December 12, 2023'')))"
proof -
  have D: "(case strings_Index ''Monday, Smarch 1, 2023'' '','' of
               None \<Rightarrow> ''Monday, Smarch 1, 2023''
             | Some i \<Rightarrow> strings_TrimSpace (drop (Suc i) ''Monday, Smarch 1, 2023'')) =
           ''Smarch 1, 2023''"
    by code_simp
  have D2: "(case strings_Index ''Tuesday, December 12, 2023'' '','' of
               None \<Rightarrow> ''Tuesday, December 12, 2023''
             | Some i \<Rightarrow> strings_TrimSpace (drop (Suc i) ''Tuesday, December 12, 2023'')) =
           ''December 12, 2023''"
    by code_simp
  have T: "(case time_Parse ''January 2, 2006'' ''December 12, 2023'' of
              Inr t1 \<Rightarrow> t1
            | Inl e \<Rightarrow> projr (time_Parse ''Jan 2, 2006'' ''December 12, 2023'')) =
           time_Date 2023 12 12 0 0 0 0 UTC"
    by code_simp
  have f1: "isl (time_Parse ''January 2, 2006'' ''Smarch 1, 2023'')"
    by code_simp
  have f2: "isl (time_Parse ''Jan 2, 2006'' ''Smarch 1, 2023'')"
    by code_simp
  have f: "\<forall>layout \<in> set layouts. isl (time_Parse layout ''Smarch 1, 2023'')"
    using f1 f2 by (simp add: layouts_def)
  note th = date_parse_error [of "''Monday, Smarch 1, 2023''" time_Parse, unfolded Let_def D]
  from th [THEN conjunct1, THEN mp, OF f]
  have a: "parseAppleDate time_Parse ''Monday, Smarch 1, 2023'' =
     (zeroTime, Some (DateParseError ''Smarch 1, 2023''
        (Some (projl (time_Parse ''Jan 2, 2006'' ''Smarch 1, 2023'')))))" .
  have s: "snd (parseAppleDate time_Parse ''Tuesday, December 12, 2023'') = None"
    by code_simp
  note th2 = date_parse_error [of "''Tuesday, December 12, 2023''" time_Parse,
      unfolded Let_def D2 T]
  from th2 [THEN conjunct2, THEN conjunct2, THEN conjunct1, THEN mp, OF s]
  have b: "fst (parseAppleDate time_Parse ''Tuesday, December 12, 2023'') =
     \<lparr>Year = 2023, Month = 12, Day = 12, Hour = 12, Minute = 0,
      Second = 0, Nanosecond = 0, Location = UTC\<rparr> \<and>
     fst (parseAppleDate time_Parse ''Tuesday, December 12, 2023'') \<noteq> zeroTime"
    by (simp add: time_Date_def zeroTime_def)
  from th2 [THEN conjunct2, THEN conjunct2, THEN conjunct2, THEN mp, OF s]
  have c: "validDate (nat (Year (fst (parseAppleDate time_Parse ''Tuesday, December 12, 2023''))))
     (Month (fst (parseAppleDate time_Parse ''Tuesday, December 12, 2023'')))
     (Day (fst (parseAppleDate time_Parse ''Tuesday, December 12, 2023'')))"
    by simp
  from a s b c show ?thesis by blast
qed

section \<open>Properties of the fallback title\<close>

lemma SplitN2_char:
  "strings_SplitN2 s [c] =
     (if c \<in> set s
      then [takeWhile (\<lambda>x. x \<noteq> c) s, tl (dropWhile (\<lambda>x. x \<noteq> c) s)]
      else [s])"
proof -
  have "take (length (takeWhile (\<lambda>x. x \<noteq> c) s)) s = takeWhile (\<lambda>x. x \<noteq> c) s"
    by (rule takeWhile_eq_take [symmetric])
  moreover have "drop (Suc (length (takeWhile (\<lambda>x. x \<noteq> c) s))) s =
      tl (dropWhile (\<lambda>x. x \<noteq> c) s)"
    by (simp add: dropWhile_eq_drop drop_Suc tl_drop)
  ultimately show ?thesis
    by (simp add: strings_SplitN2_def strings_Index_char)
qed

text \<open>
  Claim C7, as the specification states it, fails: \<^verbatim>\<open>id-rest.html\<close> matches
  \<^verbatim>\<open><id>-<rest>\<close> and gets no title, and for \<^verbatim>\<open>a-b_c.html\<close> the title is \<^verbatim>\<open>c\<close>, not the
  remainder after the hyphen.
\<close>

theorem fallback_title_counterexample:
  "fallbackTitle ''/tmp/x/Entries/id-rest.html'' = [] \<and>
   spec_fallbackTitle ''/tmp/x/Entries/id-rest.html'' = ''rest'' \<and>
   fallbackTitle ''/tmp/x/Entries/a-b_c.html'' = ''c'' \<and>
   spec_fallbackTitle ''/tmp/x/Entries/a-b_c.html'' = ''b c''"
  by code_simp

text \<open>
  Claim C7, amended. Without a title element, the title is derived from the file
  name without its extension exactly when that name has an underscore and the text
  before its first underscore has a hyphen; the title is then the text after the
  first underscore with every underscore replaced by a space, and it is empty
  otherwise. With a title element the title is its trimmed text.
\<close>

theorem fallback_title_from_file_name:
  "(let fn0 = filepath_Base p;
        fn = strings_TrimSuffix fn0 (filepath_Ext fn0)
    in fallbackTitle p =
         (if CHR ''_'' \<in> set fn \<and> CHR ''-'' \<in> set (takeWhile (\<lambda>c. c \<noteq> CHR ''_'') fn)
          then map (\<lambda>c. if c = CHR ''_'' then CHR '' '' else c)
                 (tl (dropWhile (\<lambda>c. c \<noteq> CHR ''_'') fn))
          else [])) \<and>
   extractTitle doc p =
     (case titleSpan doc of
        Some text \<Rightarrow> strings_TrimSpace text
      | None \<Rightarrow> fallbackTitle p)"
  by (simp add: fallbackTitle_def extractTitle_def Let_def SplitN2_char strings_Contains_char
      strings_ReplaceAll_char)

theorem fallback_title_from_file_name_witness:
  "fallbackTitle ''/tmp/x/Entries/2023-12-12_Morning_Walk.html'' = ''Morning Walk'' \<and>
   extractTitle blankDoc ''/tmp/x/Entries/2023-12-12_Morning_Walk.html'' = ''Morning Walk''"
proof -
  have b: "filepath_Base ''/tmp/x/Entries/2023-12-12_Morning_Walk.html'' =
      ''2023-12-12_Morning_Walk.html''"
    by code_simp
  have n: "strings_TrimSuffix ''2023-12-12_Morning_Walk.html''
      (filepath_Ext ''2023-12-12_Morning_Walk.html'') = ''2023-12-12_Morning_Walk''"
    by code_simp
  note th = fallback_title_from_file_name
    [of "''/tmp/x/Entries/2023-12-12_Morning_Walk.html''" blankDoc, unfolded Let_def b n]
  from th [THEN conjunct1]
  have f: "fallbackTitle ''/tmp/x/Entries/2023-12-12_Morning_Walk.html'' = ''Morning Walk''"
    by simp
  from th [THEN conjunct2] f
  have "extractTitle blankDoc ''/tmp/x/Entries/2023-12-12_Morning_Walk.html'' = ''Morning Walk''"
    by (simp add: blankDoc_def)
  with f show ?thesis by blast
qed

section \<open>Properties of file paths\<close>

subsection \<open>Path elements\<close>

lemma pathElems_nonempty: "pathElems p \<noteq> []"
  by (induction p) (auto split: list.splits)

lemma pathElems_append:
  "pathElems (a @ Separator # b) = pathElems a @ pathElems b"
proof (induction a)
  case Nil
  then show ?case by simp
next
  case (Cons c a)
  then show ?case
    using pathElems_nonempty [of a]
    by (cases "pathElems a") (auto split: list.splits)
qed

lemma pathElems_plain: "Separator \<notin> set x \<Longrightarrow> pathElems x = [x]"
  by (induction x) auto

lemma pathElems_no_sep: "x \<in> set (pathElems p) \<Longrightarrow> Separator \<notin> set x"
proof (induction p arbitrary: x)
  case Nil
  then show ?case by simp
next
  case (Cons c p)
  then show ?case
    using pathElems_nonempty [of p]
    by (cases "pathElems p") (auto split: if_splits)
qed

lemma strings_Join_Cons:
  "strings_Join (x # xs) sep = (if xs = [] then x else x @ sep @ strings_Join xs sep)"
  by (cases xs) simp_all

lemma strings_Join_snoc:
  "strings_Join (xs @ [x]) sep = (if xs = [] then x else strings_Join xs sep @ sep @ x)"
  by (induction xs) (auto simp: strings_Join_Cons)

lemma strings_Join_append:
  "xs \<noteq> [] \<Longrightarrow> ys \<noteq> [] \<Longrightarrow>
     strings_Join (xs @ ys) sep = strings_Join xs sep @ sep @ strings_Join ys sep"
  by (induction xs) (auto simp: strings_Join_Cons)

lemma pathElems_Join:
  "xs \<noteq> [] \<Longrightarrow> \<forall>x \<in> set xs. Separator \<notin> set x \<Longrightarrow>
     pathElems (strings_Join xs [Separator]) = xs"
proof (induction xs)
  case Nil
  then show ?case by simp
next
  case (Cons x xs)
  show ?case
  proof (cases "xs = []")
    case True
    with Cons.prems show ?thesis by (simp add: pathElems_plain)
  next
    case False
    with Cons have "pathElems (strings_Join xs [Separator]) = xs" by simp
    with Cons.prems False show ?thesis
      by (simp add: strings_Join_Cons pathElems_append pathElems_plain)
  qed
qed

subsection \<open>Cleaned elements\<close>

lemma normalOut_dots: "\<not> r \<Longrightarrow> list_all (\<lambda>y. y = ''..'') xs \<Longrightarrow> normalOut r xs"
  by (induction xs) auto

lemma normalOut_tail: "normalOut r (ys @ zs) \<Longrightarrow> normalOut r zs"
  by (induction ys) (auto simp: normalOut_dots split: if_splits)

lemma cleanElems_append:
  "cleanElems r out (es @ fs) = cleanElems r (rev (cleanElems r out es)) fs"
  by (induction es arbitrary: out) (auto split: list.splits)

lemma cleanElems_normal:
  "normalOut r out \<Longrightarrow> \<forall>e \<in> set es. Separator \<notin> set e \<Longrightarrow>
     normalOut r (rev (cleanElems r out es))"
proof (induction es arbitrary: out)
  case Nil
  then show ?case by simp
next
  case (Cons e es)
  have IH: "\<And>out'. normalOut r out' \<Longrightarrow> normalOut r (rev (cleanElems r out' es))"
    using Cons.IH Cons.prems(2) by simp
  consider (skip) "e = [] \<or> e = ''.''" | (up) "e = ''..''" | (elem) "e \<noteq> []" "e \<noteq> ''.''" "e \<noteq> ''..''"
    by blast
  then show ?case
  proof cases
    case skip
    then show ?thesis using IH [OF Cons.prems(1)] by auto
  next
    case up
    show ?thesis
    proof (cases out)
      case Nil
      then show ?thesis using up IH [of "[]"] IH [of "[''..'']"] by auto
    next
      case (Cons x xs)
      show ?thesis
      proof (cases "x = ''..''")
        case True
        with Cons Cons.prems(1) have "normalOut r (''..'' # out)" by simp
        from IH [OF this] show ?thesis using up Cons True by simp
      next
        case False
        with Cons Cons.prems(1) have "normalOut r xs" by simp
        from IH [OF this] show ?thesis using up Cons False by simp
      qed
    qed
  next
    case elem
    with Cons.prems have "normalOut r (e # out)" by (simp add: plain_def)
    from IH [OF this] show ?thesis using elem by simp
  qed
qed

lemma cleanElems_id:
  "normalOut r (rev es @ out) \<Longrightarrow> cleanElems r out es = rev out @ es"
proof (induction es arbitrary: out)
  case Nil
  then show ?case by simp
next
  case (Cons e es)
  from Cons.prems have n: "normalOut r (rev es @ e # out)" by simp
  then have eo: "normalOut r (e # out)" by (rule normalOut_tail)
  have IH: "cleanElems r (e # out) es = rev (e # out) @ es"
    using Cons.IH [of "e # out"] n by simp
  show ?case
  proof (cases "e = ''..''")
    case True
    with eo have d: "\<not> r" "list_all (\<lambda>y. y = ''..'') out" by simp_all
    show ?thesis
    proof (cases out)
      case Nil
      with True d IH show ?thesis by simp
    next
      case (Cons x xs)
      with d have "x = ''..''" by simp
      with True Cons IH show ?thesis by simp
    qed
  next
    case False
    with eo have "plain e" by simp
    with False IH show ?thesis by (simp add: plain_def)
  qed
qed


subsection \<open>Cleaned paths\<close>

lemma normalOut_elems:
  "normalOut r out \<Longrightarrow> x \<in> set out \<Longrightarrow> x \<noteq> [] \<and> Separator \<notin> set x \<and> x \<noteq> ''.''"
proof (induction out)
  case Nil
  then show ?case by simp
next
  case (Cons y out)
  show ?case
  proof (cases "y = ''..''")
    case True
    with Cons.prems have "list_all (\<lambda>y. y = ''..'') (y # out)" by simp
    with Cons.prems(2) have "x = ''..''" by (auto simp: list_all_iff)
    then show ?thesis by (simp add: Separator_def)
  next
    case False
    with Cons show ?thesis by (auto simp: plain_def)
  qed
qed

lemma Join_nonempty:
  "xs \<noteq> [] \<Longrightarrow> \<forall>x \<in> set xs. x \<noteq> [] \<Longrightarrow>
     strings_Join xs sep \<noteq> [] \<and> hd (strings_Join xs sep) = hd (hd xs)"
  by (cases xs) (auto simp: strings_Join_Cons)

lemma Clean_as_render:
  "filepath_Clean p =
     (if p = [] then ''.''
      else render (hd p = Separator) (cleanElems (hd p = Separator) [] (pathElems p)))"
proof -
  have "strings_Join xs [Separator] = [] \<longleftrightarrow> xs = []"
    if "\<forall>x \<in> set xs. x \<noteq> []" for xs :: "string list"
    using that Join_nonempty [of xs "[Separator]"] by (cases xs) auto
  moreover have "\<forall>x \<in> set (cleanElems (hd p = Separator) [] (pathElems p)). x \<noteq> []"
  proof
    fix x
    assume x: "x \<in> set (cleanElems (hd p = Separator) [] (pathElems p))"
    have "normalOut (hd p = Separator) (rev (cleanElems (hd p = Separator) [] (pathElems p)))"
      by (rule cleanElems_normal) (auto dest: pathElems_no_sep)
    from normalOut_elems [OF this, of x] x show "x \<noteq> []" by simp
  qed
  ultimately show ?thesis
    by (simp add: filepath_Clean_def render_def Let_def)
qed

lemma render_hd:
  assumes "normalOut r (rev xs)"
  shows "render r xs \<noteq> [] \<and> (hd (render r xs) = Separator) = r"
proof (cases "r \<or> xs = []")
  case True
  then show ?thesis by (auto simp: render_def Separator_def)
next
  case False
  then have xs: "xs \<noteq> []" and r: "\<not> r" by auto
  have el: "\<forall>x \<in> set xs. x \<noteq> [] \<and> Separator \<notin> set x"
    using normalOut_elems [OF assms] by auto
  then have "hd xs \<noteq> []" "Separator \<notin> set (hd xs)"
    using xs by auto
  then have "hd (hd xs) \<noteq> Separator"
    by (cases "hd xs") auto
  with Join_nonempty [of xs "[Separator]"] xs el r show ?thesis
    by (auto simp: render_def)
qed

lemma pathElems_render:
  assumes "normalOut r (rev xs)"
  shows "pathElems (render r xs) =
           (if r then [] # (if xs = [] then [[]] else xs)
            else if xs = [] then [''.''] else xs)"
proof -
  have el: "\<forall>x \<in> set xs. Separator \<notin> set x"
    using normalOut_elems [OF assms] by auto
  show ?thesis
    using pathElems_Join [OF _ el]
    by (auto simp: render_def Separator_def)
qed

lemma cleanElems_render:
  assumes "normalOut r (rev xs)"
  shows "cleanElems r [] (pathElems (render r xs)) = xs"
proof -
  have id: "cleanElems r [] xs = xs"
    using cleanElems_id [of r xs "[]"] assms by simp
  show ?thesis
    using id by (auto simp: pathElems_render [OF assms])
qed

lemma Clean_render:
  assumes "normalOut r (rev xs)"
  shows "filepath_Clean (render r xs) = render r xs"
  using render_hd [OF assms] cleanElems_render [OF assms]
  by (simp add: Clean_as_render)

lemma Clean_render_slash:
  assumes "normalOut r (rev xs)"
  shows "filepath_Clean (render r xs @ [Separator]) = render r xs"
proof -
  have h: "render r xs \<noteq> []" "(hd (render r xs) = Separator) = r"
    using render_hd [OF assms] by simp_all
  have "pathElems (render r xs @ [Separator]) = pathElems (render r xs) @ [[]]"
    using pathElems_append [of "render r xs" "[]"] by simp
  then have "cleanElems r [] (pathElems (render r xs @ [Separator])) = xs"
    by (simp add: cleanElems_append cleanElems_render [OF assms])
  with h show ?thesis
    by (simp add: Clean_as_render)
qed

lemma Clean_normal:
  obtains r xs where "normalOut r (rev xs)" "filepath_Clean p = render r xs"
proof (cases "p = []")
  case True
  have "normalOut False (rev [])" by simp
  moreover have "filepath_Clean p = render False []"
    using True by (simp add: Clean_as_render render_def)
  ultimately show ?thesis by (rule that)
next
  case False
  let ?r = "hd p = Separator"
  have "normalOut ?r (rev (cleanElems ?r [] (pathElems p)))"
    by (rule cleanElems_normal) (auto dest: pathElems_no_sep)
  moreover have "filepath_Clean p = render ?r (cleanElems ?r [] (pathElems p))"
    using False by (simp add: Clean_as_render)
  ultimately show ?thesis by (rule that)
qed

lemma Clean_idem: "filepath_Clean (filepath_Clean p) = filepath_Clean p"
proof -
  obtain r xs where "normalOut r (rev xs)" "filepath_Clean p = render r xs"
    by (rule Clean_normal)
  then show ?thesis by (simp add: Clean_render)
qed


subsection \<open>The directory of a path below another\<close>

lemma upToLastSep_some:
  "Separator \<notin> set x \<Longrightarrow>
     rev (dropWhile (\<lambda>c. c \<noteq> Separator) (rev (a @ Separator # x))) = a @ [Separator]"
proof -
  assume x: "Separator \<notin> set x"
  have "dropWhile (\<lambda>c. c \<noteq> Separator) (rev x @ Separator # rev a) =
        dropWhile (\<lambda>c. c \<noteq> Separator) (Separator # rev a)"
    by (rule dropWhile_append2) (use x in auto)
  then show ?thesis by simp
qed

lemma upToLastSep_none:
  "Separator \<notin> set x \<Longrightarrow> rev (dropWhile (\<lambda>c. c \<noteq> Separator) (rev x)) = []"
  by (auto simp: dropWhile_eq_Nil_conv)

lemma Dir_render:
  assumes "normalOut r (rev xs)"
  shows "filepath_Dir (render r xs) = render r (butlast xs)"
proof (cases xs rule: rev_cases)
  case Nil
  have "filepath_Clean (render True []) = render True []"
    by (rule Clean_render) simp
  then show ?thesis
    using Nil by (cases r) (simp_all add: filepath_Dir_def render_def Separator_def Clean_as_render)
next
  case (snoc ys x)
  with assms have n: "normalOut r (x # rev ys)" by simp
  then have ny: "normalOut r (rev ys)"
    using normalOut_tail [of r "[x]" "rev ys"] by simp
  have x: "Separator \<notin> set x"
    using normalOut_elems [OF n, of x] by simp
  show ?thesis
  proof (cases "ys = []")
    case True
    have c: "filepath_Clean (render True []) = render True []"
      by (rule Clean_render) simp
    have "render r [x] = (if r then [] @ Separator # x else x)"
      by (simp add: render_def)
    then show ?thesis
      using True snoc x c upToLastSep_some [OF x, of "[]"] upToLastSep_none [OF x]
      by (cases r) (simp_all add: filepath_Dir_def render_def Clean_as_render)
  next
    case False
    then have "render r (ys @ [x]) = render r ys @ Separator # x"
      by (simp add: render_def strings_Join_snoc)
    then have "filepath_Dir (render r (ys @ [x])) = filepath_Clean (render r ys @ [Separator])"
      using upToLastSep_some [OF x, of "render r ys"] by (simp add: filepath_Dir_def)
    then show ?thesis
      using snoc by (simp add: Clean_render_slash [OF ny])
  qed
qed

lemma HasPrefix_append: "strings_HasPrefix s p \<Longrightarrow> \<exists>rest. s = p @ rest"
  by (metis append_take_drop_id strings_HasPrefix_take)

lemma legal_elems:
  assumes nd: "normalOut r (rev ds)"
    and nx: "normalOut r' (rev xs)"
    and pre: "strings_HasPrefix (render r' xs) (render r ds @ [Separator])"
  shows "r' = r \<and> ds \<noteq> [] \<and> (\<exists>es. es \<noteq> [] \<and> xs = ds @ es)"
proof -
  from HasPrefix_append [OF pre] obtain rest where
    eq: "render r' xs = render r ds @ Separator # rest" by auto
  have "hd (render r' xs) = hd (render r ds)"
    using eq render_hd [OF nd] by (cases "render r ds") auto
  then have r: "r' = r"
    using render_hd [OF nd] render_hd [OF nx] by auto
  have pe: "pathElems (render r xs) = pathElems (render r ds) @ pathElems rest"
    using eq r by (simp add: pathElems_append)
  have ne: "pathElems rest \<noteq> []" by (rule pathElems_nonempty)
  have xel: "[] \<notin> set xs" "''.'' \<notin> set xs"
    using normalOut_elems [OF nx] by auto
  have len: "length (pathElems rest) \<ge> 1"
    using ne by (cases "pathElems rest") auto
  show ?thesis
  proof (cases "ds = []")
    case True
    have False
    proof (cases "xs = []")
      case True
      with pe \<open>ds = []\<close> ne show False
        using nx r by (cases r) (simp_all add: pathElems_render nd)
    next
      case False
      then have "hd xs \<in> set xs" by simp
      moreover have "hd xs = [] \<or> hd xs = ''.''"
        using pe \<open>ds = []\<close> False nx nd r
        by (cases r) (auto simp: pathElems_render)
      ultimately show False using xel by auto
    qed
    then show ?thesis ..
  next
    case False
    have "xs \<noteq> []"
    proof
      assume "xs = []"
      with pe False nx nd r ne show False
        by (cases r) (auto simp: pathElems_render Cons_eq_append_conv)
    qed
    with pe False nx nd r have "xs = ds @ pathElems rest"
      by (cases r) (auto simp: pathElems_render)
    with r False ne show ?thesis by blast
  qed
qed

lemma render_append:
  "ds \<noteq> [] \<Longrightarrow> es \<noteq> [] \<Longrightarrow>
     render r (ds @ es) = render r ds @ Separator # strings_Join es [Separator]"
  by (simp add: render_def strings_Join_append)

lemma Dir_legal:
  assumes nd: "normalOut r (rev ds)"
    and nx: "normalOut r' (rev xs)"
    and pre: "strings_HasPrefix (render r' xs) (render r ds @ [Separator])"
  shows "filepath_Dir (render r' xs) = render r ds \<or>
         strings_HasPrefix (filepath_Dir (render r' xs)) (render r ds @ [Separator])"
proof -
  from legal_elems [OF nd nx pre] obtain es where
    r: "r' = r" and ds: "ds \<noteq> []" and es: "es \<noteq> []" and xs: "xs = ds @ es"
    by auto
  have d: "filepath_Dir (render r' xs) = render r (ds @ butlast es)"
    using Dir_render [OF nx] r xs es by (simp add: butlast_append)
  show ?thesis
  proof (cases "butlast es = []")
    case True
    with d show ?thesis by simp
  next
    case False
    with d ds have "filepath_Dir (render r' xs) =
        (render r ds @ [Separator]) @ strings_Join (butlast es) [Separator]"
      by (simp add: render_append)
    then show ?thesis
      by (simp add: strings_HasPrefix_take)
  qed
qed

lemma Dir_of_legal_Clean:
  assumes "legalPath dest (filepath_Clean p)"
  shows "filepath_Dir (filepath_Clean p) = filepath_Clean dest \<or>
         legalPath dest (filepath_Dir (filepath_Clean p))"
proof -
  obtain r ds where nd: "normalOut r (rev ds)" and d: "filepath_Clean dest = render r ds"
    by (rule Clean_normal)
  obtain r' xs where nx: "normalOut r' (rev xs)" and q: "filepath_Clean p = render r' xs"
    by (rule Clean_normal)
  from assms have "strings_HasPrefix (render r' xs) (render r ds @ [Separator])"
    by (simp add: legalPath_def d q)
  from Dir_legal [OF nd nx this] show ?thesis
    by (simp add: legalPath_def d q)
qed

lemma Dir_of_legal_Join:
  assumes "legalPath dest (filepath_Join [dest, name])"
  shows "filepath_Dir (filepath_Join [dest, name]) = filepath_Clean dest \<or>
         legalPath dest (filepath_Dir (filepath_Join [dest, name]))"
proof -
  have "filepath_Join [dest, name] = [] \<or> (\<exists>p. filepath_Join [dest, name] = filepath_Clean p)"
    by (auto simp: filepath_Join_def split: list.splits)
  moreover have "\<not> legalPath dest []"
    by (simp add: legalPath_def strings_HasPrefix_def)
  ultimately obtain p where "filepath_Join [dest, name] = filepath_Clean p"
    using assms by auto
  with assms Dir_of_legal_Clean [of dest p] show ?thesis by simp
qed


subsection \<open>Joining a directory and a plain name\<close>

lemma Base_elem:
  assumes "f \<noteq> []" "Separator \<notin> set f"
  shows "filepath_Base (a @ Separator # f) = f" and "filepath_Base f = f"
proof -
  note f = assms
  then have h: "hd (rev f) \<noteq> Separator" "rev f \<noteq> []"
    by (simp_all add: hd_rev) (metis last_in_set)
  have d: "dropWhile (\<lambda>c. c = Separator) (rev f @ ys) = rev f @ ys" for ys
    using h by (cases "rev f") auto
  have t: "takeWhile (\<lambda>c. c \<noteq> Separator) (rev f @ Separator # ys) = rev f" for ys
    using f by (auto simp: takeWhile_tail)
  have al: "\<forall>x \<in> set (rev f). x \<noteq> Separator"
    using f by auto
  note t' = takeWhile_eq_all_conv [THEN iffD2, OF al]
  show "filepath_Base (a @ Separator # f) = f"
    using f by (simp add: filepath_Base_def Let_def d t)
  show "filepath_Base f = f"
    using f d [of "[]"] by (simp add: filepath_Base_def Let_def t')
qed

lemma Base_last:
  assumes "plain f"
  shows "filepath_Base (a @ Separator # f) = f" and "filepath_Base f = f"
  using assms Base_elem [of f] by (simp_all add: plain_def)

lemma render_snoc:
  "render r (ds @ [f]) =
     (if ds = [] then (if r then Separator # f else f) else render r ds @ Separator # f)"
  by (cases r) (simp_all add: render_def strings_Join_snoc)

lemma Join_plain:
  assumes out: "out \<noteq> []" and f: "plain f"
  shows "filepath_Dir (filepath_Join [out, f]) = filepath_Clean out \<and>
         filepath_Base (filepath_Join [out, f]) = f"
proof -
  let ?r = "hd out = Separator"
  let ?ds = "cleanElems ?r [] (pathElems out)"
  have nd: "normalOut ?r (rev ?ds)"
    by (rule cleanElems_normal) (auto dest: pathElems_no_sep)
  from f have fs: "Separator \<notin> set f" by (simp add: plain_def)
  have j: "filepath_Join [out, f] = filepath_Clean (out @ Separator # f)"
    using out by (simp add: filepath_Join_def split: list.splits)
  have pe: "pathElems (out @ Separator # f) = pathElems out @ [f]"
    by (simp add: pathElems_append pathElems_plain [OF fs])
  have ce: "cleanElems ?r [] (pathElems (out @ Separator # f)) = ?ds @ [f]"
    using f by (simp add: pe cleanElems_append plain_def)
  have q: "filepath_Join [out, f] = render ?r (?ds @ [f])"
    using out by (simp add: j Clean_as_render ce)
  have nx: "normalOut ?r (rev (?ds @ [f]))"
    using nd f by (simp add: plain_def)
  have c: "filepath_Clean out = render ?r ?ds"
    using out by (simp add: Clean_as_render)
  have "filepath_Dir (filepath_Join [out, f]) = filepath_Clean out"
    using Dir_render [OF nx] by (simp add: q c)
  moreover have "filepath_Base (render r (ds @ [f])) = f" for r ds
    using Base_last(1) [OF f, of "[]"] Base_last(1) [OF f, of "render r ds"] Base_last(2) [OF f]
    by (simp add: render_snoc)
  ultimately show ?thesis by (simp add: q)
qed

subsection \<open>Paths below a directory\<close>

lemma Base_render:
  assumes "normalOut r (rev (ds @ [x]))"
  shows "filepath_Base (render r (ds @ [x])) = x"
proof -
  from assms have x: "x \<noteq> []" "Separator \<notin> set x"
    using normalOut_elems [of r "rev (ds @ [x])" x] by auto
  from Base_elem [OF x] Base_elem(1) [OF x, of "[]"] show ?thesis
    by (cases r) (auto simp: render_snoc)
qed

lemma normalOut_after_plain:
  "normalOut r (ys @ z # zs) \<Longrightarrow> z \<noteq> ''..'' \<Longrightarrow> list_all plain ys"
  by (induction ys) (auto simp: list_all_iff split: if_splits)

lemma legal_is_below:
  assumes pd: "filepath_Base (filepath_Clean dest) \<noteq> ''..''"
    and l: "legalPath dest (filepath_Clean p)"
  shows "below (filepath_Clean dest) (filepath_Clean p)"
proof -
  obtain r ds where nd: "normalOut r (rev ds)" and d: "filepath_Clean dest = render r ds"
    by (rule Clean_normal)
  obtain r' xs where nx: "normalOut r' (rev xs)" and q: "filepath_Clean p = render r' xs"
    by (rule Clean_normal)
  from l have pre: "strings_HasPrefix (render r' xs) (render r ds @ [Separator])"
    by (simp add: legalPath_def d q)
  from legal_elems [OF nd nx pre] obtain es where
    r: "r' = r" and ds: "ds \<noteq> []" and es: "es \<noteq> []" and xs: "xs = ds @ es"
    by auto
  from ds obtain ds' x where dx: "ds = ds' @ [x]"
    by (cases ds rule: rev_cases) auto
  with nd have "filepath_Base (render r ds) = x"
    using Base_render [of r ds' x] by simp
  with pd d have x: "x \<noteq> ''..''"
    by auto
  from nx xs dx have "normalOut r' (rev es @ x # rev ds')" by simp
  from normalOut_after_plain [OF this x] have pl: "list_all plain es" by simp
  then have ns: "\<forall>e \<in> set es. Separator \<notin> set e"
    by (auto simp: list_all_iff plain_def)
  have eq: "render r' xs = render r ds @ Separator # strings_Join es [Separator]"
    using r xs ds es by (simp add: render_append)
  have "pathElems (strings_Join es [Separator]) = es"
    using es ns by (rule pathElems_Join)
  with pl show ?thesis
    by (simp add: below_def d q eq strings_HasPrefix_take)
qed

section \<open>Properties of the entry writer\<close>

lemma safeTitle_map: "safeTitle t = map (\<lambda>c. if c = CHR ''/'' then CHR ''-'' else if c = CHR 0x22 then CHR 0x27 else c) t"
  by (simp add: safeTitle_def strings_ReplaceAll_char)

lemma digit_not_sep: "k < 10 \<Longrightarrow> char_of (48 + k :: nat) \<noteq> Separator"
proof
  assume k: "k < 10" and eq: "char_of (48 + k) = Separator"
  then have "of_char (char_of (48 + k) :: char) = (of_char Separator :: nat)" by simp
  with k show False by (simp add: Separator_def)
qed

lemma natDigits_no_sep: "Separator \<notin> set (natDigits n)"
proof (induction n rule: natDigits.induct)
  case (1 n)
  show ?case
  proof (cases "n < 10")
    case True
    then show ?thesis
      using digit_not_sep [of n] by (subst natDigits.simps) auto
  next
    case False
    then have "Separator \<notin> set (natDigits (n div 10))" by (rule 1)
    moreover have "char_of (48 + n mod 10) \<noteq> Separator"
      by (rule digit_not_sep) simp
    ultimately show ?thesis
      using False by (subst natDigits.simps) auto
  qed
qed

lemma appendInt_no_sep: "Separator \<notin> set (appendInt x width)"
  using natDigits_no_sep [of "nat \<bar>x\<bar>"]
  by (auto simp: appendInt_def Let_def) (simp_all add: Separator_def)

lemma entryFileName_plain: "plain (entryFileName ent)"
proof -
  have "Separator \<notin> set (safeTitle (Title ent))"
    by (auto simp: safeTitle_map Separator_def)
  then have "Separator \<notin> set (entryFileName ent)"
    by (auto simp: entryFileName_def formatDate_def appendInt_no_sep) (simp_all add: Separator_def)
  moreover have "length (entryFileName ent) \<ge> 3"
    by (simp add: entryFileName_def)
  ultimately show ?thesis
    by (auto simp: plain_def)
qed

lemma logPrintf_files: "files (logPrintf l w) = files w"
  by (simp add: logPrintf_def)

text \<open>
  Claim C8. When \<^verbatim>\<open>saveMarkdownFile\<close> returns no error, the file at the path joined
  from the output directory and the file name holds the Markdown text of the entry,
  as it is. The file name is the formatted creation date, a hyphen, the title with
  every slash replaced by a hyphen and every double quote by a single quote, and
  \<^verbatim>\<open>.md\<close>; the sanitized title has no slash and no double quote; for an output
  directory that is not the empty string, the directory of the path is the cleaned
  output directory and its last element is the file name; and the date of a
  year from 0 to 9999 is formatted as four digits of the year, two of the month and
  two of the day, with hyphens between them.
\<close>

theorem entry_written_under_date_and_title:
  "(fst (saveMarkdownFile e w outputDir ent) = None \<longrightarrow>
      map_of (files (snd (saveMarkdownFile e w outputDir ent)))
        (filepath_Join [outputDir, entryFileName ent]) = Some (MarkdownText ent)) \<and>
   entryFileName ent =
     formatDate (CreationDate ent) @ ''-'' @
     map (\<lambda>c. if c = CHR ''/'' then CHR ''-'' else if c = CHR 0x22 then CHR 0x27 else c)
       (Title ent) @ ''.md'' \<and>
   CHR ''/'' \<notin> set (safeTitle (Title ent)) \<and> CHR 0x22 \<notin> set (safeTitle (Title ent)) \<and>
   (outputDir \<noteq> [] \<longrightarrow>
      filepath_Dir (filepath_Join [outputDir, entryFileName ent]) = filepath_Clean outputDir \<and>
      filepath_Base (filepath_Join [outputDir, entryFileName ent]) = entryFileName ent) \<and>
   (0 \<le> Year t \<and> Year t < 10000 \<and> Month t < 100 \<and> Day t < 100 \<longrightarrow>
      formatDate t =
        [char_of (48 + nat (Year t) div 1000), char_of (48 + nat (Year t) div 100 mod 10),
         char_of (48 + nat (Year t) div 10 mod 10), char_of (48 + nat (Year t) mod 10),
         CHR ''-'', char_of (48 + Month t div 10), char_of (48 + Month t mod 10),
         CHR ''-'', char_of (48 + Day t div 10), char_of (48 + Day t mod 10)])"
proof (intro conjI impI)
  assume "fst (saveMarkdownFile e w outputDir ent) = None"
  then show "map_of (files (snd (saveMarkdownFile e w outputDir ent)))
      (filepath_Join [outputDir, entryFileName ent]) = Some (MarkdownText ent)"
    by (auto simp: saveMarkdownFile_def Let_def os_WriteFile_def logPrintf_files update_conv'
        split: option.splits if_splits)
next
  show "entryFileName ent =
     formatDate (CreationDate ent) @ ''-'' @
     map (\<lambda>c. if c = CHR ''/'' then CHR ''-'' else if c = CHR 0x22 then CHR 0x27 else c)
       (Title ent) @ ''.md''"
    by (simp add: entryFileName_def safeTitle_map)
next
  show "CHR ''/'' \<notin> set (safeTitle (Title ent))"
    by (auto simp: safeTitle_map)
next
  show "CHR 0x22 \<notin> set (safeTitle (Title ent))"
    by (auto simp: safeTitle_map)
next
  assume "outputDir \<noteq> []"
  then show "filepath_Dir (filepath_Join [outputDir, entryFileName ent]) =
      filepath_Clean outputDir"
    using Join_plain [OF _ entryFileName_plain] by simp
next
  assume "outputDir \<noteq> []"
  then show "filepath_Base (filepath_Join [outputDir, entryFileName ent]) = entryFileName ent"
    using Join_plain [OF _ entryFileName_plain] by simp
next
  assume a: "0 \<le> Year t \<and> Year t < 10000 \<and> Month t < 100 \<and> Day t < 100"
  then have y: "Year t = int (nat (Year t))" "nat (Year t) < 10000"
    by auto
  have y4: "appendInt (Year t) 4 =
      [char_of (48 + nat (Year t) div 1000), char_of (48 + nat (Year t) div 100 mod 10),
       char_of (48 + nat (Year t) div 10 mod 10), char_of (48 + nat (Year t) mod 10)]"
    using appendInt_4 [OF y(2)] y(1) by simp
  from a show "formatDate t =
        [char_of (48 + nat (Year t) div 1000), char_of (48 + nat (Year t) div 100 mod 10),
         char_of (48 + nat (Year t) div 10 mod 10), char_of (48 + nat (Year t) mod 10),
         CHR ''-'', char_of (48 + Month t div 10), char_of (48 + Month t mod 10),
         CHR ''-'', char_of (48 + Day t div 10), char_of (48 + Day t mod 10)]"
    by (simp add: formatDate_def appendInt_2 y4)
qed

theorem entry_written_under_date_and_title_witness:
  "fst (saveMarkdownFile exampleEnv exampleWorld ''/out'' exampleEntry) = None \<and>
   filepath_Join [''/out'', entryFileName exampleEntry] = ''/out/2023-12-12-Morning Walk.md'' \<and>
   map_of (files (snd (saveMarkdownFile exampleEnv exampleWorld ''/out'' exampleEntry)))
     ''/out/2023-12-12-Morning Walk.md'' = Some (MarkdownText exampleEntry) \<and>
   filepath_Dir ''/out/2023-12-12-Morning Walk.md'' = ''/out'' \<and>
   filepath_Base ''/out/2023-12-12-Morning Walk.md'' = ''2023-12-12-Morning Walk.md'' \<and>
   formatDate (CreationDate exampleEntry) = ''2023-12-12''"
proof -
  have h: "fst (saveMarkdownFile exampleEnv exampleWorld ''/out'' exampleEntry) = None"
    by code_simp
  have n: "filepath_Join [''/out'', entryFileName exampleEntry] =
      ''/out/2023-12-12-Morning Walk.md''"
    by code_simp
  have c: "filepath_Clean ''/out'' = ''/out''"
    "entryFileName exampleEntry = ''2023-12-12-Morning Walk.md''"
    by code_simp+
  have r: "0 \<le> Year (CreationDate exampleEntry) \<and> Year (CreationDate exampleEntry) < 10000 \<and>
      Month (CreationDate exampleEntry) < 100 \<and> Day (CreationDate exampleEntry) < 100"
    by (simp add: exampleEntry_def time_Date_def)
  have d: "[char_of (48 + nat (Year (CreationDate exampleEntry)) div 1000),
         char_of (48 + nat (Year (CreationDate exampleEntry)) div 100 mod 10),
         char_of (48 + nat (Year (CreationDate exampleEntry)) div 10 mod 10),
         char_of (48 + nat (Year (CreationDate exampleEntry)) mod 10),
         CHR ''-'', char_of (48 + Month (CreationDate exampleEntry) div 10),
         char_of (48 + Month (CreationDate exampleEntry) mod 10),
         CHR ''-'', char_of (48 + Day (CreationDate exampleEntry) div 10),
         char_of (48 + Day (CreationDate exampleEntry) mod 10)] = ''2023-12-12''"
    by code_simp
  note th = entry_written_under_date_and_title
    [where e = exampleEnv and w = exampleWorld and outputDir = "''/out''"
      and ent = exampleEntry and t = "CreationDate exampleEntry"]
  from th h have f: "map_of (files (snd (saveMarkdownFile exampleEnv exampleWorld ''/out''
      exampleEntry))) (filepath_Join [''/out'', entryFileName exampleEntry]) =
      Some (MarkdownText exampleEntry)"
    by blast
  have "''/out'' \<noteq> []" by simp
  with th have p:
    "filepath_Dir (filepath_Join [''/out'', entryFileName exampleEntry]) = filepath_Clean ''/out'' \<and>
     filepath_Base (filepath_Join [''/out'', entryFileName exampleEntry]) =
       entryFileName exampleEntry"
    by blast
  from th r have "formatDate (CreationDate exampleEntry) =
        [char_of (48 + nat (Year (CreationDate exampleEntry)) div 1000),
         char_of (48 + nat (Year (CreationDate exampleEntry)) div 100 mod 10),
         char_of (48 + nat (Year (CreationDate exampleEntry)) div 10 mod 10),
         char_of (48 + nat (Year (CreationDate exampleEntry)) mod 10),
         CHR ''-'', char_of (48 + Month (CreationDate exampleEntry) div 10),
         char_of (48 + Month (CreationDate exampleEntry) mod 10),
         CHR ''-'', char_of (48 + Day (CreationDate exampleEntry) div 10),
         char_of (48 + Day (CreationDate exampleEntry) mod 10)]"
    by blast
  with d have g: "formatDate (CreationDate exampleEntry) = ''2023-12-12''"
    by simp
  from h n f p g show ?thesis
    by (simp add: c)
qed

section \<open>Properties of the archive stager\<close>

lemma os_MkdirAll_Some:
  "os_MkdirAll e w p = Some w' \<Longrightarrow>
     files w' = files w \<and> set (dirs w') \<subseteq> insert p (set (dirs w))"
  by (auto simp: os_MkdirAll_def split: if_splits)

lemma os_WriteFile_Some:
  "os_WriteFile e w p d = Some w' \<Longrightarrow>
     dirs w' = dirs w \<and> map_of (files w') = (map_of (files w))(p \<mapsto> d)"
  by (auto simp: os_WriteFile_def update_conv' split: if_splits)

lemma unzipFiles_illegal:
  "\<exists>f \<in> set fs. \<not> legalPath dest (filepath_Join [dest, Name f]) \<Longrightarrow>
     fst (unzipFiles e w dest fs) \<noteq> None"
proof (induction fs arbitrary: w)
  case Nil
  then show ?case by simp
next
  case (Cons f fs)
  show ?case
  proof (cases "legalPath dest (filepath_Join [dest, Name f])")
    case False
    then show ?thesis by (simp add: Let_def)
  next
    case True
    with Cons.prems have "\<exists>f \<in> set fs. \<not> legalPath dest (filepath_Join [dest, Name f])"
      by auto
    then have "\<And>w. fst (unzipFiles e w dest fs) \<noteq> None"
      by (rule Cons.IH)
    with True show ?thesis
      by (auto simp: Let_def split: option.splits zip_read.splits)
  qed
qed

lemma below_is_legal: "below (filepath_Clean dest) p \<Longrightarrow> legalPath dest p"
  by (simp add: below_def legalPath_def)

lemma Join_is_Clean:
  assumes "legalPath dest (filepath_Join [dest, name])"
  obtains p where "filepath_Join [dest, name] = filepath_Clean p"
proof -
  have "filepath_Join [dest, name] = [] \<or> (\<exists>p. filepath_Join [dest, name] = filepath_Clean p)"
    by (auto simp: filepath_Join_def split: list.splits)
  moreover have "\<not> legalPath dest []"
    by (simp add: legalPath_def strings_HasPrefix_def)
  ultimately show ?thesis
    using assms that by auto
qed

lemma legal_Join_below:
  assumes "filepath_Base (filepath_Clean dest) \<noteq> ''..''"
  shows "legalPath dest (filepath_Join [dest, name]) =
         below (filepath_Clean dest) (filepath_Join [dest, name])"
proof
  assume l: "legalPath dest (filepath_Join [dest, name])"
  from Join_is_Clean [OF l] obtain p where p: "filepath_Join [dest, name] = filepath_Clean p" .
  with l legal_is_below [OF assms, of p] show "below (filepath_Clean dest) (filepath_Join [dest, name])"
    by simp
next
  assume "below (filepath_Clean dest) (filepath_Join [dest, name])"
  then show "legalPath dest (filepath_Join [dest, name])"
    by (rule below_is_legal)
qed

lemma unzipFiles_changed:
  "\<forall>f \<in> set fs. legalPath dest (filepath_Join [dest, Name f]) \<longrightarrow> p \<noteq> filepath_Join [dest, Name f] \<Longrightarrow>
     map_of (files (snd (unzipFiles e w dest fs))) p = map_of (files w) p"
proof (induction fs arbitrary: w)
  case Nil
  then show ?case by simp
next
  case (Cons f fs)
  let ?fpath = "filepath_Join [dest, Name f]"
  show ?case
  proof (cases "legalPath dest ?fpath")
    case False
    then show ?thesis by (simp add: Let_def)
  next
    case True
    with Cons.prems have ne: "p \<noteq> ?fpath" by auto
    from Cons.prems have
      "\<forall>f \<in> set fs. legalPath dest (filepath_Join [dest, Name f]) \<longrightarrow> p \<noteq> filepath_Join [dest, Name f]"
      by simp
    then have IH: "\<And>w. map_of (files (snd (unzipFiles e w dest fs))) p = map_of (files w) p"
      by (rule Cons.IH)
    show ?thesis
      using True ne
      by (auto simp: Let_def IH update_conv' dest!: os_MkdirAll_Some os_WriteFile_Some
          split: option.splits zip_read.splits)
  qed
qed

lemma unzipFiles_created:
  "p \<in> set (dirs (snd (unzipFiles e w dest fs))) \<Longrightarrow>
     p \<in> set (dirs w) \<or>
     (\<exists>f \<in> set fs. legalPath dest (filepath_Join [dest, Name f]) \<and>
        (p = filepath_Join [dest, Name f] \<or> p = filepath_Dir (filepath_Join [dest, Name f])))"
proof (induction fs arbitrary: w)
  case Nil
  then show ?case by simp
next
  case (Cons f fs)
  let ?fpath = "filepath_Join [dest, Name f]"
  show ?case
  proof (cases "legalPath dest ?fpath")
    case False
    with Cons.prems show ?thesis by (simp add: Let_def)
  next
    case True
    note IH = Cons.IH
    show ?thesis
      using True Cons.prems
      apply (simp add: Let_def split: option.splits zip_read.splits if_splits)
      apply (auto dest!: os_MkdirAll_Some os_WriteFile_Some IH)
      done
  qed
qed

text \<open>
  What the check of \<^verbatim>\<open>unzip\<close> achieves when the cleaned destination does not end in
  \<^verbatim>\<open>..\<close>: a member whose joined path does not lie below the destination makes \<^verbatim>\<open>unzip\<close>
  return an error, every file that \<^verbatim>\<open>unzip\<close> creates or changes lies below the
  destination, and so does every directory it creates besides the destination.
\<close>

lemma unzip_check_sound:
  assumes pd: "filepath_Base (filepath_Clean dest) \<noteq> ''..''"
  shows "(openZip e src = Some r \<and>
      (\<exists>f \<in> set r. \<not> below (filepath_Clean dest) (filepath_Join [dest, Name f])) \<longrightarrow>
      fst (unzip e w src dest) \<noteq> None) \<and>
   (\<forall>p. map_of (files (snd (unzip e w src dest))) p \<noteq> map_of (files w) p \<longrightarrow>
      below (filepath_Clean dest) p) \<and>
   (\<forall>p. p \<in> set (dirs (snd (unzip e w src dest))) \<longrightarrow>
      p \<in> set (dirs w) \<or> p = dest \<or> p = filepath_Clean dest \<or> below (filepath_Clean dest) p)"
proof (intro conjI allI impI)
  assume "openZip e src = Some r \<and>
      (\<exists>f \<in> set r. \<not> below (filepath_Clean dest) (filepath_Join [dest, Name f]))"
  then have r: "openZip e src = Some r"
    and "\<exists>f \<in> set r. \<not> legalPath dest (filepath_Join [dest, Name f])"
    by (simp_all add: legal_Join_below [OF pd])
  then have "\<And>w1. fst (unzipFiles e w1 dest r) \<noteq> None"
    by (simp add: unzipFiles_illegal)
  with r show "fst (unzip e w src dest) \<noteq> None"
    by (simp add: unzip_def split: option.splits)
next
  fix p
  assume c: "map_of (files (snd (unzip e w src dest))) p \<noteq> map_of (files w) p"
  show "below (filepath_Clean dest) p"
  proof (rule ccontr)
    assume nb: "\<not> below (filepath_Clean dest) p"
    have "\<forall>f \<in> set fs. legalPath dest (filepath_Join [dest, Name f]) \<longrightarrow>
        p \<noteq> filepath_Join [dest, Name f]" for fs :: "zipFile list"
      using nb legal_Join_below [OF pd] by auto
    then have "map_of (files (snd (unzipFiles e w1 dest fs))) p = map_of (files w1) p"
      for w1 and fs :: "zipFile list"
      by (rule unzipFiles_changed)
    then have "map_of (files (snd (unzip e w src dest))) p = map_of (files w) p"
      by (auto simp: unzip_def dest!: os_MkdirAll_Some split: option.splits)
    with c show False by simp
  qed
next
  fix p
  assume p: "p \<in> set (dirs (snd (unzip e w src dest)))"
  show "p \<in> set (dirs w) \<or> p = dest \<or> p = filepath_Clean dest \<or> below (filepath_Clean dest) p"
  proof (cases "openZip e src")
    case None
    with p show ?thesis by (simp add: unzip_def)
  next
    case (Some r)
    show ?thesis
    proof (cases "os_MkdirAll e w dest")
      case None
      with p Some show ?thesis by (simp add: unzip_def)
    next
      case w1: (Some w1)
      from os_MkdirAll_Some [OF w1] have d1: "set (dirs w1) \<subseteq> insert dest (set (dirs w))"
        by simp
      from p Some w1 have "p \<in> set (dirs (snd (unzipFiles e w1 dest r)))"
        by (simp add: unzip_def)
      from unzipFiles_created [OF this]
      consider "p \<in> set (dirs w1)"
        | f :: zipFile where "legalPath dest (filepath_Join [dest, Name f])"
            "p = filepath_Join [dest, Name f]"
        | f :: zipFile where "legalPath dest (filepath_Join [dest, Name f])"
            "p = filepath_Dir (filepath_Join [dest, Name f])"
        by blast
      then show ?thesis
      proof cases
        case 1
        with d1 show ?thesis by auto
      next
        case 2
        then show ?thesis by (simp add: legal_Join_below [OF pd])
      next
        case 3
        from Dir_of_legal_Join [OF 3(1)] 3(2)
        have "p = filepath_Clean dest \<or> legalPath dest p" by simp
        moreover have "p = filepath_Clean p"
          using 3(2) by (simp add: filepath_Dir_def Clean_idem)
        ultimately show ?thesis
          using legal_is_below [OF pd, of p] by auto
      qed
    qed
  qed
qed


section \<open>The driver's count and the media names on concrete runs\<close>

lemma walkFn_count:
  "snd (walkFn e out (w, n) v) = (if extracted e w v then Suc n else n)"
  by (auto simp: walkFn_def Let_def extracted_def split: prod.splits sum.splits option.splits)

text \<open>
  Claim C3 fails on the code. One step of the walk adds one to the count exactly
  when the visited entry was extracted, whatever \<^verbatim>\<open>saveMarkdownFile\<close> returns for it.
  The run below visits one entry, \<^verbatim>\<open>long.html\<close>, whose extraction succeeds and whose
  Markdown file cannot be written: \<^verbatim>\<open>saveMarkdownFile\<close> returns the write error, no
  file is created, the error is logged, and the count that \<^verbatim>\<open>main\<close> logs at the end
  is 1.
\<close>

theorem count_includes_failed_write:
  "snd (walkFn e out (w, n) v) = (if extracted e w v then Suc n else n) \<and>
   processEntries exampleEnv exampleWorld ''/out'' [entryVisit ''long.html''] =
     (exampleWorld
        \<lparr>dirs := [''/out/media''],
         logOutput :=
           [LogProcessingEntry ''/tmp/x/Entries/long.html'',
            LogErrorSaving ''/tmp/x/Entries/long.html''
              (WriteError (''/out/2023-12-12-'' @ replicate 300 (CHR ''a'') @ ''.md'')),
            LogComplete 1, LogOutputWritten ''/out'']\<rparr>,
      1)"
proof
  show "snd (walkFn e out (w, n) v) = (if extracted e w v then Suc n else n)"
    by (rule walkFn_count)
  show "processEntries exampleEnv exampleWorld ''/out'' [entryVisit ''long.html''] =
     (exampleWorld
        \<lparr>dirs := [''/out/media''],
         logOutput :=
           [LogProcessingEntry ''/tmp/x/Entries/long.html'',
            LogErrorSaving ''/tmp/x/Entries/long.html''
              (WriteError (''/out/2023-12-12-'' @ replicate 300 (CHR ''a'') @ ''.md'')),
            LogComplete 1, LogOutputWritten ''/out'']\<rparr>,
      1)"
    by code_simp
qed

text \<open>
  Claim C1 fails on the code. In \<open>twiceDoc\<close> one asset grid shows the image
  \<^verbatim>\<open>../Resources/photo.jpg\<close> twice. The Markdown text refers to two names, one for each
  occurrence; the \<open>Media\<close> map has one pair for the source path and keeps the second
  name only, so that the file of the first reference is never copied.
\<close>

theorem repeated_image_reference_dangles:
  "fst (extractEntry exampleEnv exampleWorld ''/tmp/x/Entries/twice.html'' twiceDoc) =
     Inr \<lparr>CreationDate = time_Date 2023 12 12 12 0 0 0 UTC,
          Title = ''Morning Walk'',
          MarkdownText =
            ''# Morning Walk'' @ [LF, LF] @
            ''![](media/00000000-0000-4000-8000-000000000000-photo.jpg)'' @ [LF, LF] @
            ''![](media/00000000-0000-4000-8000-000000000001-photo.jpg)'',
          Media = [(''/tmp/x/Resources/photo.jpg'',
                    ''00000000-0000-4000-8000-000000000001-photo.jpg'')]\<rparr> \<and>
   processEntries exampleEnv exampleWorld ''/out'' [entryVisit ''twice.html''] =
     (exampleWorld
        \<lparr>files := files exampleWorld @
           [(''/out/media/00000000-0000-4000-8000-000000000001-photo.jpg'', ''JPEG''),
            (''/out/2023-12-12-Morning Walk.md'',
             ''# Morning Walk'' @ [LF, LF] @
             ''![](media/00000000-0000-4000-8000-000000000000-photo.jpg)'' @ [LF, LF] @
             ''![](media/00000000-0000-4000-8000-000000000001-photo.jpg)'')],
         dirs := [''/out/media''],
         uuidCalls := 2,
         logOutput :=
           [LogProcessingEntry ''/tmp/x/Entries/twice.html'',
            LogSaved ''/out/2023-12-12-Morning Walk.md'',
            LogComplete 1, LogOutputWritten ''/out'']\<rparr>,
      1)"
  by code_simp

end
